theory Spec2Isabelle
  imports Main "HOL-Library.Extended_Nat" "HOL-Library.Sublist"
begin

section \<open>JavaScript values\<close>

text \<open>
  The values that travel through the pipeline are the results of \<open>JSON.parse\<close> on upstream
  responses, plus \<open>undefined\<close> for an absent property. Numbers are modelled as integers
  (fractions, infinities and \<open>NaN\<close> literals do not occur in the modelled inputs); an object
  is the list of its own properties in insertion order.
\<close>

datatype jsval =
    Undefined
  | Null
  | Bool bool
  | Num int
  | Str string
  | Arr "jsval list"
  | Obj "(string \<times> jsval) list"

text \<open>Thrown values: a \<open>TypeError\<close> of the runtime or an \<open>Error\<close> of the program, with its message.\<close>

datatype jserr = TypeError string | Error string

fun message :: "jserr \<Rightarrow> string" where
  "message (TypeError m) = m"
| "message (Error m) = m"

fun truthy :: "jsval \<Rightarrow> bool" where
  "truthy Undefined = False"
| "truthy Null = False"
| "truthy (Bool b) = b"
| "truthy (Num n) = (n \<noteq> 0)"
| "truthy (Str s) = (s \<noteq> [])"
| "truthy (Arr xs) = True"
| "truthy (Obj kvs) = True"

fun nullish :: "jsval \<Rightarrow> bool" where
  "nullish Undefined = True"
| "nullish Null = True"
| "nullish v = False"

fun isArray :: "jsval \<Rightarrow> bool" where
  "isArray (Arr xs) = True"
| "isArray v = False"

fun isString :: "jsval \<Rightarrow> bool" where
  "isString (Str s) = True"
| "isString v = False"

text \<open>\<open>a || b\<close>\<close>

definition js_or :: "jsval \<Rightarrow> jsval \<Rightarrow> jsval" where
  "js_or a b = (if truthy a then a else b)"

text \<open>Decimal rendering of numbers, as \<open>Number.prototype.toString\<close> does for integers.\<close>

definition digit_char :: "nat \<Rightarrow> char" where
  "digit_char d = ''0123456789'' ! (d mod 10)"

function show_nat :: "nat \<Rightarrow> string" where
  "show_nat n = (if n < 10 then [digit_char n] else show_nat (n div 10) @ [digit_char (n mod 10)])"
  by pat_completeness auto
termination
  by (relation "measure id") auto

definition show_int :: "int \<Rightarrow> string" where
  "show_int i = (if i < 0 then CHR ''-'' # show_nat (nat (- i)) else show_nat (nat i))"

fun join :: "string \<Rightarrow> string list \<Rightarrow> string" where
  "join sep [] = []"
| "join sep [x] = x"
| "join sep (x # y # ys) = x @ sep @ join sep (y # ys)"

text \<open>
  \<open>ToString\<close>, as used by template literals and by \<open>parseInt\<close>. An array joins the strings
  of its elements with commas, \<open>null\<close> and \<open>undefined\<close> elements giving the empty string.
\<close>

fun js_toString :: "jsval \<Rightarrow> string" where
  "js_toString Undefined = ''undefined''"
| "js_toString Null = ''null''"
| "js_toString (Bool b) = (if b then ''true'' else ''false'')"
| "js_toString (Num n) = show_int n"
| "js_toString (Str s) = s"
| "js_toString (Arr xs) = join '','' (map (\<lambda>x. if nullish x then [] else js_toString x) xs)"
| "js_toString (Obj kvs) = ''[object Object]''"

text \<open>
  \<open>parseInt(v, 10)\<close>: the string of \<open>v\<close>, leading white space skipped, an optional sign, then
  the longest prefix of decimal digits; \<open>None\<close> is \<open>NaN\<close>. White space is the ASCII part of
  the set the language defines.
\<close>

definition is_space :: "char \<Rightarrow> bool" where
  "is_space c = (c \<in> set [CHR '' '', CHR 0x09, CHR 0x0A, CHR 0x0B, CHR 0x0C, CHR 0x0D])"

definition is_digit :: "char \<Rightarrow> bool" where
  "is_digit c = (c \<in> set ''0123456789'')"

definition digit_val :: "char \<Rightarrow> nat" where
  "digit_val c = of_char c - 48"

definition digits_val :: "string \<Rightarrow> nat" where
  "digits_val ds = foldl (\<lambda>acc c. 10 * acc + digit_val c) 0 ds"

definition parseInt_str :: "string \<Rightarrow> int option" where
  "parseInt_str s =
     (let t = dropWhile is_space s;
          neg = (t \<noteq> [] \<and> hd t = CHR ''-'');
          u = (if t \<noteq> [] \<and> (hd t = CHR ''-'' \<or> hd t = CHR ''+'') then tl t else t);
          ds = takeWhile is_digit u
      in if ds = [] then None
         else Some (if neg then - int (digits_val ds) else int (digits_val ds)))"

definition parseInt10 :: "jsval \<Rightarrow> int option" where
  "parseInt10 v = parseInt_str (js_toString v)"

text \<open>
  Reading a property by name. \<open>js_prop\<close> is the lookup on a receiver that is neither \<open>null\<close>
  nor \<open>undefined\<close>; the names the program reads are fixed identifiers, of which only
  \<open>length\<close> exists on arrays and strings. \<open>getprop\<close> adds the \<open>TypeError\<close> of reading a
  property of \<open>null\<close> or \<open>undefined\<close>.
\<close>

fun js_prop :: "jsval \<Rightarrow> string \<Rightarrow> jsval" where
  "js_prop (Obj kvs) k = (case map_of kvs k of Some v \<Rightarrow> v | None \<Rightarrow> Undefined)"
| "js_prop (Arr xs) k = (if k = ''length'' then Num (int (length xs)) else Undefined)"
| "js_prop (Str s) k = (if k = ''length'' then Num (int (length s)) else Undefined)"
| "js_prop v k = Undefined"

definition getprop :: "jsval \<Rightarrow> string \<Rightarrow> jserr + jsval" where
  "getprop v k =
     (if nullish v
      then Inl (TypeError (''Cannot read properties of '' @ js_toString v @ '' (reading '' @ k @ '')''))
      else Inr (js_prop v k))"

text \<open>\<open>v[0]\<close> on a receiver that is neither \<open>null\<close> nor \<open>undefined\<close>.\<close>

fun first_element :: "jsval \<Rightarrow> jsval" where
  "first_element (Arr xs) = (case xs of [] \<Rightarrow> Undefined | x # _ \<Rightarrow> x)"
| "first_element (Str s) = (case s of [] \<Rightarrow> Undefined | c # _ \<Rightarrow> Str [c])"
| "first_element (Obj kvs) = (case map_of kvs ''0'' of Some v \<Rightarrow> v | None \<Rightarrow> Undefined)"
| "first_element v = Undefined"

text \<open>The own enumerable properties (\<open>Object.keys\<close>, object spread).\<close>

fun own_entries :: "jsval \<Rightarrow> (string \<times> jsval) list" where
  "own_entries (Obj kvs) = kvs"
| "own_entries (Arr xs) = map (\<lambda>i. (show_nat i, xs ! i)) [0..<length xs]"
| "own_entries (Str s) = map (\<lambda>i. (show_nat i, Str [s ! i])) [0..<length s]"
| "own_entries v = []"

text \<open>\<open>o[k] = v\<close> on an object: an existing property keeps its place.\<close>

fun setprop :: "(string \<times> jsval) list \<Rightarrow> string \<Rightarrow> jsval \<Rightarrow> (string \<times> jsval) list" where
  "setprop [] k v = [(k, v)]"
| "setprop ((k', v') # kvs) k v = (if k' = k then (k, v) # kvs else (k', v') # setprop kvs k v)"

text \<open>Sequencing of computations that may throw.\<close>

definition bind_err :: "'e + 'a \<Rightarrow> ('a \<Rightarrow> 'e + 'b) \<Rightarrow> 'e + 'b" where
  "bind_err m f = (case m of Inl e \<Rightarrow> Inl e | Inr v \<Rightarrow> f v)"

fun map_err :: "('a \<Rightarrow> 'e + 'b) \<Rightarrow> 'a list \<Rightarrow> 'e + 'b list" where
  "map_err f [] = Inr []"
| "map_err f (x # xs) = bind_err (f x) (\<lambda>y. bind_err (map_err f xs) (\<lambda>ys. Inr (y # ys)))"

text \<open>
  \<open>recv.map(f)\<close>: only an array has the method (values parsed from JSON hold no functions),
  and the first callback that throws ends the call.
\<close>

definition array_map :: "(jsval \<Rightarrow> jserr + jsval) \<Rightarrow> jsval \<Rightarrow> jserr + jsval list" where
  "array_map f recv =
     (case recv of
        Arr xs \<Rightarrow> map_err f xs
      | _ \<Rightarrow> if nullish recv
             then Inl (TypeError (''Cannot read properties of '' @ js_toString recv @ '' (reading map)''))
             else Inl (TypeError ''map is not a function''))"

text \<open>\<open>s.split(sep)\<close> for a one-character separator, and \<open>s.trim()\<close> (ASCII white space).\<close>

fun split_on :: "char \<Rightarrow> string \<Rightarrow> string list" where
  "split_on sep [] = [[]]"
| "split_on sep (c # cs) =
     (if c = sep then [] # split_on sep cs
      else (case split_on sep cs of [] \<Rightarrow> [[c]] | w # ws \<Rightarrow> (c # w) # ws))"

definition trim :: "string \<Rightarrow> string" where
  "trim s = rev (dropWhile is_space (rev (dropWhile is_space s)))"

definition str_split :: "char \<Rightarrow> jsval \<Rightarrow> jserr + string list" where
  "str_split sep recv =
     (case recv of
        Str s \<Rightarrow> Inr (split_on sep s)
      | _ \<Rightarrow> if nullish recv
             then Inl (TypeError (''Cannot read properties of '' @ js_toString recv @ '' (reading split)''))
             else Inl (TypeError ''split is not a function''))"

text \<open>
  Built-in functions of the runtime that the program calls and that are taken as given:
  \<open>JSON.parse\<close> (\<open>None\<close> is its \<open>SyntaxError\<close>), \<open>JSON.stringify\<close>, the conversion to a
  number that the comparison \<open>x > 0\<close> applies to an operand that is not a number (\<open>None\<close>
  is \<open>NaN\<close>), and whether \<open>new URL(s)\<close> accepts a string.
\<close>

record runtime =
  json_parse :: "string \<Rightarrow> jsval option"
  json_stringify :: "jsval \<Rightarrow> string"
  to_number :: "jsval \<Rightarrow> int option"
  url_valid :: "string \<Rightarrow> bool"

definition js_gt_zero :: "runtime \<Rightarrow> jsval \<Rightarrow> bool" where
  "js_gt_zero rt v =
     (case v of
        Num n \<Rightarrow> 0 < n
      | _ \<Rightarrow> (case to_number rt v of None \<Rightarrow> False | Some n \<Rightarrow> 0 < n))"

section \<open>Mapper (scrapers/lkq/mapper.js, and the second copy of \<open>mapProductToPart\<close>)\<close>

text \<open>
  \<open>if (x && typeof x === 'string') { try { v = JSON.parse(x) } catch (error) { } }\<close>:
  the variable keeps its initial value unless \<open>x\<close> is a non-empty string that parses.
\<close>

definition parse_embedded :: "runtime \<Rightarrow> jsval \<Rightarrow> jsval \<Rightarrow> jsval" where
  "parse_embedded rt initial x =
     (case x of
        Str s \<Rightarrow> (if s \<noteq> [] then (case json_parse rt s of Some v \<Rightarrow> v | None \<Rightarrow> initial) else initial)
      | _ \<Rightarrow> initial)"

text \<open>The callback of \<open>fitments.map\<close> in mapper.js: the year is kept as it is.\<close>

definition compatibility_entry :: "jsval \<Rightarrow> jserr + jsval" where
  "compatibility_entry fitment =
     bind_err (getprop fitment ''SystemMake'') (\<lambda>make.
       Inr (Obj [(''make'', js_or make (Str [])),
                 (''model'', js_or (js_prop fitment ''SystemModel'') (Str [])),
                 (''year'', js_or (js_prop fitment ''SystemYear'') (Num 0)),
                 (''trim'', Str [])]))"

text \<open>The same callback in the second copy: \<open>parseInt(fitment.SystemYear, 10) || 0\<close>.\<close>

definition compatibility_entry_copy :: "jsval \<Rightarrow> jserr + jsval" where
  "compatibility_entry_copy fitment =
     bind_err (getprop fitment ''SystemMake'') (\<lambda>make.
       Inr (Obj [(''make'', js_or make (Str [])),
                 (''model'', js_or (js_prop fitment ''SystemModel'') (Str [])),
                 (''year'', (case parseInt10 (js_prop fitment ''SystemYear'') of
                               None \<Rightarrow> Num 0
                             | Some n \<Rightarrow> js_or (Num n) (Num 0))),
                 (''trim'', Str [])]))"

definition image_entry :: "jsval \<Rightarrow> jsval \<Rightarrow> jserr + jsval" where
  "image_entry product img =
     bind_err (getprop img ''url'') (\<lambda>url.
       Inr (Obj [(''url'', js_or url (Str [])),
                 (''alt'', js_or (js_or (js_prop img ''description'') (js_prop product ''description''))
                             (Str []))]))"

definition source_vehicle_images :: "jsval \<Rightarrow> jserr + jsval list" where
  "source_vehicle_images sourceVehicle =
     bind_err (getprop sourceVehicle ''SourceVehicleImages'') (\<lambda>imgs.
       (case imgs of
          Arr urls \<Rightarrow>
            Inr (map (\<lambda>url.
                   Obj [(''url'', url),
                        (''alt'', Str (''Source Vehicle - ''
                            @ js_toString (js_or (js_prop sourceVehicle ''Year'') (Str [])) @ '' ''
                            @ js_toString (js_or (js_prop sourceVehicle ''Make'') (Str [])) @ '' ''
                            @ js_toString (js_or (js_prop sourceVehicle ''Model'') (Str []))))])
                 urls)
        | _ \<Rightarrow> Inr []))"

text \<open>
  The price. mapper.js tests \<open>product.price !== undefined\<close>, the second copy tests
  \<open>product.price\<close>; the flag \<open>strict\<close> selects the former.
\<close>

definition price_of :: "runtime \<Rightarrow> bool \<Rightarrow> jsval \<Rightarrow> jserr + jsval" where
  "price_of rt strict product =
     (let price = js_prop product ''price''; pricing = js_prop product ''pricing''
      in if (if strict then price \<noteq> Undefined else truthy price) then Inr price
         else if truthy pricing \<and> js_gt_zero rt (js_prop pricing ''length'')
         then bind_err (getprop (first_element pricing) ''customerPrice'') (\<lambda>customerPrice.
                Inr (js_or customerPrice (Num 0)))
         else Inr (Num 0))"

definition add_specification :: "(string \<times> jsval) list \<Rightarrow> string \<Rightarrow> (string \<times> jsval) list" where
  "add_specification specifications part =
     (case split_on CHR '' '' part of
        key # value # _ \<Rightarrow>
          if key \<noteq> [] \<and> value \<noteq> [] then setprop specifications key (Str value) else specifications
      | _ \<Rightarrow> specifications)"

definition specifications_of :: "jsval \<Rightarrow> jserr + (string \<times> jsval) list" where
  "specifications_of product =
     bind_err (str_split CHR '','' (js_or (js_prop product ''description'') (Str []))) (\<lambda>parts.
       Inr (foldl add_specification [] (map trim parts)))"

definition explicitFields :: "string list" where
  "explicitFields =
     [''number'', ''id'', ''descriptionRetail'', ''description'', ''price'',
      ''sourceVehicleMake'', ''category'', ''availability'', ''ftcDisplay'',
      ''interchange'', ''sourceVehicleYear'', ''sourceVehicleModel'',
      ''mileage'', ''location'', ''yardCity'', ''yardState'', ''catalog'',
      ''isReman'', ''images'', ''pricing'', ''_salvageSourceVehicle'', ''fitmentJson'']"

definition other_params :: "jsval \<Rightarrow> (string \<times> jsval) list" where
  "other_params product =
     (let otherParams =
            foldl (\<lambda>acc (key, v). if key \<in> set explicitFields then acc else setprop acc key v)
              [] (own_entries product)
      in if truthy (js_prop product ''details'')
         then setprop otherParams ''details'' (js_prop product ''details'')
         else otherParams)"

definition category_of :: "jsval \<Rightarrow> jserr + jsval" where
  "category_of product =
     bind_err (str_split CHR ''|'' (js_or (js_prop product ''category'') (Str []))) (\<lambda>ws.
       Inr (js_or (case ws of _ # c # _ \<Rightarrow> Str c | _ \<Rightarrow> Undefined) (Str [])))"

definition condition_of :: "jsval \<Rightarrow> jsval" where
  "condition_of product =
     (let ftcDisplay = js_prop product ''ftcDisplay''
      in if ftcDisplay = Str ''Used'' then Str ''used''
         else if ftcDisplay = Str ''New'' then Str ''new''
         else if ftcDisplay = Str ''Refurbished'' then Str ''refurbished''
         else Str ''unknown'')"

definition metadata_of :: "jsval \<Rightarrow> jsval \<Rightarrow> (string \<times> jsval) list" where
  "metadata_of product sourceVehicle =
     [(''originalId'', js_or (js_prop product ''id'') (Str [])),
      (''interchange'', js_or (js_prop product ''interchange'') (Str [])),
      (''sourceVehicleYear'',
         js_or (js_or (js_prop product ''sourceVehicleYear'') (js_prop sourceVehicle ''Year'')) (Str [])),
      (''sourceVehicleMake'',
         js_or (js_or (js_prop product ''sourceVehicleMake'') (js_prop sourceVehicle ''Make'')) (Str [])),
      (''sourceVehicleModel'',
         js_or (js_or (js_prop product ''sourceVehicleModel'') (js_prop sourceVehicle ''Model'')) (Str [])),
      (''mileage'',
         js_or (js_or (js_prop product ''mileage'') (js_prop sourceVehicle ''Mileage'')) (Num 0)),
      (''location'', js_or (js_prop product ''location'') (Str [])),
      (''yardCity'', js_or (js_prop product ''yardCity'') (Str [])),
      (''yardState'', js_or (js_prop product ''yardState'') (Str [])),
      (''catalogId'',
         (if truthy (js_prop product ''catalog'') then js_prop (js_prop product ''catalog'') ''id''
          else Num 0)),
      (''catalogName'',
         (if truthy (js_prop product ''catalog'') then js_prop (js_prop product ''catalog'') ''name''
          else Str [])),
      (''isReman'', js_or (js_prop product ''isReman'') (Bool False))]"

text \<open>The fields of the part object that both copies build in the same way.\<close>

definition part_fields ::
  "jsval \<Rightarrow> jsval \<Rightarrow> jsval \<Rightarrow> jsval \<Rightarrow> jsval list \<Rightarrow> jsval list
     \<Rightarrow> (string \<times> jsval) list \<Rightarrow> (string \<times> jsval) list"
where
  "part_fields product sourceVehicle price category compatibility images specifications =
     [(''partNumber'', js_or (js_or (js_prop product ''number'') (js_prop product ''id'')) (Str [])),
      (''name'',
         js_or (js_or (js_prop product ''descriptionRetail'') (js_prop product ''description'')) (Str [])),
      (''description'', js_or (js_prop product ''description'') (Str [])),
      (''price'', price),
      (''currency'', Str ''USD''),
      (''manufacturer'',
         js_or (js_or (js_prop sourceVehicle ''Make'') (js_prop product ''sourceVehicleMake'')) (Str [])),
      (''category'', category),
      (''subcategory'', Str []),
      (''compatibility'', Arr compatibility),
      (''images'', Arr images),
      (''specifications'', Obj specifications),
      (''source'', Str ''lkq''),
      (''sourceUrl'',
         Str (''https://www.lkqonline.com/parts/''
              @ js_toString (js_or (js_or (js_prop product ''number'') (js_prop product ''id'')) (Str [])))),
      (''inStock'',
         Bool (js_prop product ''availability'' = Str ''availableLocal''
               \<or> js_prop product ''availability'' = Str ''availableShip'')),
      (''quantity'', Num 1),
      (''condition'', condition_of product)]"

text \<open>
  The body of the \<open>try\<close> block of \<open>mapProductToPart\<close> in mapper.js, in the order in which
  its statements can throw; \<open>Inr Null\<close> is the early \<open>return null\<close>.
\<close>

definition try_block :: "runtime \<Rightarrow> jsval \<Rightarrow> jserr + jsval" where
  "try_block rt product =
     (if \<not> truthy product then Inr Null
      else
        let sourceVehicle = parse_embedded rt (Obj []) (js_prop product ''_salvageSourceVehicle'');
            fitments = parse_embedded rt (Arr []) (js_prop product ''fitmentJson'')
        in bind_err (array_map compatibility_entry fitments) (\<lambda>compatibility.
           bind_err (array_map (image_entry product) (js_or (js_prop product ''images'') (Arr []))) (\<lambda>images.
           bind_err (source_vehicle_images sourceVehicle) (\<lambda>vehicleImages.
           bind_err (price_of rt True product) (\<lambda>price.
           bind_err (specifications_of product) (\<lambda>specifications.
           bind_err (category_of product) (\<lambda>category.
             Inr (Obj (part_fields product sourceVehicle price category compatibility
                         (images @ vehicleImages) specifications
                       @ [(''metadata'', Obj (metadata_of product sourceVehicle)),
                          (''otherParams'', Obj (other_params product))])))))))))"

text \<open>\<open>product?.k\<close>\<close>

definition opt_prop :: "jsval \<Rightarrow> string \<Rightarrow> jsval" where
  "opt_prop v k = (if nullish v then Undefined else js_prop v k)"

definition catch_block :: "runtime \<Rightarrow> jsval \<Rightarrow> jserr \<Rightarrow> jsval" where
  "catch_block rt product error =
     Obj [(''partNumber'',
             js_or (js_or (opt_prop product ''number'') (opt_prop product ''id'')) (Str ''unknown'')),
          (''name'',
             js_or (js_or (opt_prop product ''descriptionRetail'') (opt_prop product ''description''))
               (Str ''Unknown part'')),
          (''source'', Str ''lkq''),
          (''otherParams'',
             Obj [(''rawData'',
                     (if truthy product then Str (json_stringify rt product)
                      else Str ''Error mapping product'')),
                  (''mappingError'', Str (message error))])]"

definition mapProductToPart :: "runtime \<Rightarrow> jsval \<Rightarrow> jsval" where
  "mapProductToPart rt product =
     (case try_block rt product of
        Inr result \<Rightarrow> result
      | Inl error \<Rightarrow> catch_block rt product error)"

text \<open>
  The second copy of \<open>mapProductToPart\<close> (the one that follows the scraper class in
  scrapers/lkq/index.js): the year goes through \<open>parseInt\<close>, the price test is truthiness,
  there is no \<open>otherParams\<close>, the metadata carry the raw data, and the \<open>catch\<close> block
  returns \<open>null\<close>.
\<close>

definition try_block_copy :: "runtime \<Rightarrow> jsval \<Rightarrow> jserr + jsval" where
  "try_block_copy rt product =
     (if \<not> truthy product then Inr Null
      else
        let sourceVehicle = parse_embedded rt (Obj []) (js_prop product ''_salvageSourceVehicle'');
            fitments = parse_embedded rt (Arr []) (js_prop product ''fitmentJson'')
        in bind_err (array_map compatibility_entry_copy fitments) (\<lambda>compatibility.
           bind_err (array_map (image_entry product) (js_or (js_prop product ''images'') (Arr []))) (\<lambda>images.
           bind_err (source_vehicle_images sourceVehicle) (\<lambda>vehicleImages.
           bind_err (price_of rt False product) (\<lambda>price.
           bind_err (specifications_of product) (\<lambda>specifications.
           bind_err (category_of product) (\<lambda>category.
             Inr (Obj (part_fields product sourceVehicle price category compatibility
                         (images @ vehicleImages) specifications
                       @ [(''metadata'',
                             Obj (metadata_of product sourceVehicle
                                  @ [(''rawData'', Str (json_stringify rt product))]))])))))))))"

definition mapProductToPart_copy :: "runtime \<Rightarrow> jsval \<Rightarrow> jsval" where
  "mapProductToPart_copy rt product =
     (case try_block_copy rt product of
        Inr result \<Rightarrow> result
      | Inl error \<Rightarrow> Null)"

text \<open>
  \<open>mapProducts\<close> of the scraper class: it maps with the \<open>mapProductToPart\<close> of mapper.js
  (which does not throw) and keeps the truthy results (\<open>filter(Boolean)\<close>).
\<close>

definition mapProducts :: "runtime \<Rightarrow> jsval list \<Rightarrow> jsval list" where
  "mapProducts rt products = filter truthy (map (mapProductToPart rt) products)"

section \<open>Retry policy (utils/scraper-utils.js, \<open>retry\<close>)\<close>

text \<open>
  An asynchronous operation \<open>fn\<close> is a state transformer on the world it acts on: it
  either throws (\<open>Inl\<close>) or returns a value (\<open>Inr\<close>), and leaves a new world behind.
\<close>

type_synonym ('s, 'e, 'a) operation = "'s \<Rightarrow> ('e + 'a) \<times> 's"

text \<open>
  What a rejected operation throws: an error object, or \<open>None\<close> for \<open>undefined\<close> (\<open>null\<close>
  behaves alike: neither has properties). Reading \<open>error.message\<close> of an error object
  gives its message; of \<open>undefined\<close> it throws a \<open>TypeError\<close>.
\<close>

definition message_of_thrown :: "jserr option \<Rightarrow> jserr + string" where
  "message_of_thrown thrown =
     (case thrown of
        None \<Rightarrow> Inl (TypeError ''Cannot read properties of undefined (reading message)'')
      | Some error \<Rightarrow> Inr (message error))"

text \<open>
  The loop of \<open>retry\<close>. Loop variables: \<open>retries\<close>, \<open>lastError\<close> (declared without a
  value, so it starts as \<open>undefined\<close>), the number of backoff sleeps performed so far, and
  the world. The result is what the call returns or throws, the number of sleeps, and the
  final world. In the \<open>catch\<close> block, a failure of the last attempt leaves the loop, and
  \<open>lastError\<close> is thrown; after any other failure the warning is logged, which reads
  \<open>error.message\<close> and may so throw in the place of the sleep. The length of each sleep
  (exponential backoff with jitter, capped by \<open>maxDelay\<close>) does not influence the control
  flow and is not modelled.
\<close>

function retry_loop ::
  "('s, jserr option, 'a) operation \<Rightarrow> int \<Rightarrow> nat \<Rightarrow> jserr option \<Rightarrow> nat \<Rightarrow> 's
     \<Rightarrow> (jserr option + 'a) \<times> nat \<times> 's"
where
  "retry_loop fn maxRetries retries lastError sleeps s =
     (if int retries \<le> maxRetries then
        (case fn s of
           (Inr v, s') \<Rightarrow> (Inr v, sleeps, s')
         | (Inl error, s') \<Rightarrow>
             (if int (Suc retries) > maxRetries then (Inl error, sleeps, s')
              else (case message_of_thrown error of
                      Inl typeError \<Rightarrow> (Inl (Some typeError), sleeps, s')
                    | Inr msg \<Rightarrow>
                        retry_loop fn maxRetries (Suc retries) error (Suc sleeps) s')))
      else (Inl lastError, sleeps, s))"
  by pat_completeness auto
termination
  by (relation "measure (\<lambda>(fn, maxRetries, retries, lastError, sleeps, s). nat (maxRetries + 1 - int retries))")
     auto

definition retry ::
  "('s, jserr option, 'a) operation \<Rightarrow> int \<Rightarrow> 's \<Rightarrow> (jserr option + 'a) \<times> nat \<times> 's"
where
  "retry fn maxRetries s = retry_loop fn maxRetries 0 None 0 s"

section \<open>Catalog client (scrapers/lkq/api.js) and its world\<close>

text \<open>
  The requests that reach the upstream API, named after the function that issues them.
  \<open>CategoryCounts\<close> is the probe of \<open>getCategoryCounts\<close> (on the wire, the search action
  with skip 0 and take 1); \<open>UrlPage\<close> is the request that \<open>fetchProductsByUrl\<close> builds from
  its URL with \<open>skip\<close> and \<open>take\<close> replaced.
\<close>

datatype request =
    SearchResults string nat nat
  | CategoryCounts string
  | ProductDetails jsval
  | UrlPage string nat nat

text \<open>
  The world is the history of the requests issued so far. The upstream server is any
  function of that history (the last entry being the request to answer): it makes
  \<open>makeApiRequest\<close> throw (a transport failure, an HTML body) or return \<open>response.data\<close>.
\<close>

type_synonym world = "request list"

type_synonym server = "request list \<Rightarrow> jserr + jsval"

definition makeApiRequest :: "server \<Rightarrow> request \<Rightarrow> (world, jserr, jsval) operation" where
  "makeApiRequest srv req w = (srv (w @ [req]), w @ [req])"

text \<open>
  The configuration (config/index.js). The three counts are read with \<open>parseInt\<close> from the
  environment and are taken to be natural numbers.
\<close>

record config =
  retryAttempts :: nat
  batchSize :: nat
  parallelRequests :: nat
  categoryUrls :: "string list"

text \<open>
  The operations that the catalog client hands to \<open>retry\<close> reject with error objects
  only; this is such an operation as \<open>retry\<close> sees it.
\<close>

definition throwing_errors :: "('s, jserr, 'a) operation \<Rightarrow> ('s, jserr option, 'a) operation" where
  "throwing_errors fn s = (case fn s of (Inl error, s') \<Rightarrow> (Inl (Some error), s') | (Inr v, s') \<Rightarrow> (Inr v, s'))"

text \<open>The result of a retried call without the count of sleeps.\<close>

definition retried :: "('s, jserr, 'a) operation \<Rightarrow> int \<Rightarrow> 's \<Rightarrow> (jserr option + 'a) \<times> 's" where
  "retried fn maxRetries s =
     (case retry (throwing_errors fn) maxRetries s of (r, sleeps, s') \<Rightarrow> (r, s'))"

definition getSearchResults ::
  "config \<Rightarrow> server \<Rightarrow> string \<Rightarrow> nat \<Rightarrow> nat \<Rightarrow> world \<Rightarrow> (jserr option + jsval) \<times> world"
where
  "getSearchResults cfg srv category skip take' =
     retried (makeApiRequest srv (SearchResults category skip take')) (int (retryAttempts cfg))"

definition getProductDetails ::
  "config \<Rightarrow> server \<Rightarrow> jsval \<Rightarrow> world \<Rightarrow> (jserr option + jsval) \<times> world"
where
  "getProductDetails cfg srv productId =
     retried (makeApiRequest srv (ProductDetails productId)) (int (retryAttempts cfg))"

text \<open>
  \<open>getCategoryCounts\<close>: the retried operation reads \<open>response.count\<close>, which throws when
  the response is \<open>null\<close> or \<open>undefined\<close>.
\<close>

definition countsOperation :: "server \<Rightarrow> string \<Rightarrow> (world, jserr, jsval) operation" where
  "countsOperation srv category w =
     (case makeApiRequest srv (CategoryCounts category) w of
        (Inl error, w') \<Rightarrow> (Inl error, w')
      | (Inr response, w') \<Rightarrow>
          (bind_err (getprop response ''count'') (\<lambda>count.
             Inr (Obj [(''totalCount'',
                          (if truthy count
                           then (case parseInt10 count of None \<Rightarrow> Undefined | Some n \<Rightarrow> Num n)
                           else Num 0)),
                       (''category'', Str category),
                       (''rawResponse'', response)])),
           w'))"

definition getCategoryCounts ::
  "config \<Rightarrow> server \<Rightarrow> string \<Rightarrow> world \<Rightarrow> (jserr option + jsval) \<times> world"
where
  "getCategoryCounts cfg srv category =
     retried (countsOperation srv category) (int (retryAttempts cfg))"

text \<open>
  \<open>initializeApi\<close>: a counts probe whose failure is only logged, then a search probe under
  its own \<open>retry(..., 3)\<close>. Both sit in a \<open>try\<close> whose \<open>catch\<close> logs \<open>error.message\<close> and
  swallows the error; reading \<open>message\<close> of a thrown \<open>undefined\<close> is the one way out of a
  \<open>catch\<close> block.
\<close>

definition testCategory :: string where
  "testCategory = ''Engine Compartment|Alternator''"

definition searchProbe :: "config \<Rightarrow> server \<Rightarrow> (world, jserr, jsval) operation" where
  "searchProbe cfg srv w =
     (case getSearchResults cfg srv testCategory 0 1 w of
        (Inl None, w') \<Rightarrow> (Inl (TypeError ''Cannot read properties of undefined (reading message)''), w')
      | (Inl (Some error), w') \<Rightarrow> (Inl error, w')
      | (Inr results, w') \<Rightarrow>
          (if \<not> truthy results then Inl (Error ''No results returned from API'')
           else if truthy (js_prop results ''error'')
           then Inl (Error (''API error: '' @ js_toString (js_prop results ''error'')))
           else if \<not> isArray (js_prop results ''data'')
           then Inl (Error ''API returned unexpected format'')
           else Inr results,
           w'))"

definition initializeApi :: "config \<Rightarrow> server \<Rightarrow> world \<Rightarrow> (jserr + unit) \<times> world" where
  "initializeApi cfg srv w =
     (case getCategoryCounts cfg srv testCategory w of
        (Inl None, w1) \<Rightarrow> (Inr (), w1)
      | (counts, w1) \<Rightarrow>
          (case retried (searchProbe cfg srv) 3 w1 of
             (Inl thrown, w2) \<Rightarrow> (bind_err (message_of_thrown thrown) (\<lambda>m. Inr ()), w2)
           | (Inr results, w2) \<Rightarrow> (Inr (), w2)))"

section \<open>Detail enrichment (utils/scraper-utils.js \<open>chunk\<close>, \<open>fetchProductDetails\<close>)\<close>

text \<open>
  \<open>chunk\<close>: \<open>for (let i = 0; i < array.length; i += size) chunks.push(array.slice(i, i + size))\<close>.
  Nothing makes the loop leave when the size is 0; \<open>None\<close> stands for a call that does not
  return.
\<close>

partial_function (option) chunk_loop :: "'a list \<Rightarrow> nat \<Rightarrow> nat \<Rightarrow> 'a list list \<Rightarrow> 'a list list option"
where
  "chunk_loop array size' i chunks =
     (if i < length array
      then chunk_loop array size' (i + size') (chunks @ [take size' (drop i array)])
      else Some chunks)"

declare chunk_loop.simps [code]

definition chunk :: "'a list \<Rightarrow> nat \<Rightarrow> 'a list list option" where
  "chunk array size' = chunk_loop array size' 0 []"

text \<open>
  The callback that \<open>fetchProductDetails\<close> maps over a group. Everything thrown inside its
  \<open>try\<close> is caught and answered with the product itself; the callback rejects only if the
  \<open>catch\<close> block fails to read the message of a thrown \<open>undefined\<close>.
\<close>

definition enrichProduct :: "config \<Rightarrow> server \<Rightarrow> jsval \<Rightarrow> (world, jserr, jsval) operation" where
  "enrichProduct cfg srv product w =
     (case getprop product ''id'' of
        Inl error \<Rightarrow> (Inr product, w)
      | Inr ident \<Rightarrow>
          (let productId = js_or ident (js_prop product ''productId'')
           in if \<not> truthy productId then (Inr product, w)
              else (case getProductDetails cfg srv productId w of
                      (Inl None, w') \<Rightarrow>
                        (Inl (TypeError ''Cannot read properties of undefined (reading message)''), w')
                    | (Inl (Some error), w') \<Rightarrow> (Inr product, w')
                    | (Inr details, w') \<Rightarrow>
                        (if \<not> truthy details then Inr product
                         else Inr (Obj (setprop (own_entries product) ''details'' details)),
                         w'))))"

text \<open>
  \<open>Promise.all\<close> over the callbacks of one group: the results come in the order of the
  group, and a rejected callback rejects the whole. The callbacks run concurrently and
  their requests reach the server in an order that timers decide; the model issues them
  in the order of the group.
\<close>

fun enrichGroup :: "config \<Rightarrow> server \<Rightarrow> jsval list \<Rightarrow> (world, jserr, jsval list) operation" where
  "enrichGroup cfg srv [] w = (Inr [], w)"
| "enrichGroup cfg srv (product # batch) w =
     (case enrichProduct cfg srv product w of
        (Inl error, w') \<Rightarrow> (Inl error, w')
      | (Inr result, w') \<Rightarrow>
          (case enrichGroup cfg srv batch w' of
             (Inl error, w'') \<Rightarrow> (Inl error, w'')
           | (Inr results, w'') \<Rightarrow> (Inr (result # results), w'')))"

text \<open>The loop over the groups, with \<open>productsWithDetails\<close> as accumulator.\<close>

fun enrichGroups ::
  "config \<Rightarrow> server \<Rightarrow> jsval list list \<Rightarrow> jsval list \<Rightarrow> (world, jserr, jsval list) operation"
where
  "enrichGroups cfg srv [] productsWithDetails w = (Inr productsWithDetails, w)"
| "enrichGroups cfg srv (batch # batches) productsWithDetails w =
     (case enrichGroup cfg srv batch w of
        (Inl error, w') \<Rightarrow> (Inl error, w')
      | (Inr batchResults, w') \<Rightarrow>
          enrichGroups cfg srv batches (productsWithDetails @ batchResults) w')"

definition fetchProductDetails ::
  "config \<Rightarrow> server \<Rightarrow> jsval list \<Rightarrow> world \<Rightarrow> ((jserr + jsval list) \<times> world) option"
where
  "fetchProductDetails cfg srv products w =
     (if products = [] then Some (Inr [], w)
      else (case chunk products (parallelRequests cfg) of
              None \<Rightarrow> None
            | Some batches \<Rightarrow> Some (enrichGroups cfg srv batches [] w)))"

section \<open>Pagination controller (scrapers/lkq/index.js)\<close>

text \<open>
  The variables of the \<open>while\<close> loops of \<open>fetchProductsByCategory\<close> and
  \<open>fetchProductsByUrl\<close>, and the world. \<open>maxProducts\<close> is a count or \<open>Infinity\<close>.
\<close>

record page_state =
  allProducts :: "jsval list"
  skip :: nat
  hasMore :: bool
  consecutiveErrors :: nat
  world :: world

definition initial_state :: "world \<Rightarrow> page_state" where
  "initial_state w =
     \<lparr>allProducts = [], skip = 0, hasMore = True, consecutiveErrors = 0, world = w\<rparr>"

text \<open>
  What one pass through the loop body does: go on with the next pass, leave the loop
  (\<open>break\<close>), or throw out of the inner \<open>catch\<close> block.
\<close>

datatype step = Continue page_state | Break page_state | Throw jserr page_state

text \<open>
  The inner \<open>catch\<close> block: count the error, log its message, stop at the ceiling, else
  back off and go on. The sleeps have no effect on the state.
\<close>

definition on_error :: "nat \<Rightarrow> jserr option \<Rightarrow> page_state \<Rightarrow> step" where
  "on_error maxRetries thrown st =
     (let st' = st\<lparr>consecutiveErrors := Suc (consecutiveErrors st)\<rparr>
      in case message_of_thrown thrown of
           Inl error \<Rightarrow> Throw error st'
         | Inr m \<Rightarrow> if maxRetries \<le> consecutiveErrors st' then Break st' else Continue st')"

text \<open>
  The rest of the \<open>try\<close> block once a response has arrived. \<open>totalTake\<close> is the take that
  is added to \<open>skip\<close> in the comparison with the total count, \<open>requested\<close> the take that
  was sent and by which \<open>skip\<close> advances: the category loop uses its \<open>take\<close> for both, the
  URL loop compares with its constant \<open>take\<close> of 50 and advances by \<open>currentTake\<close>.
\<close>

definition on_response :: "nat \<Rightarrow> enat \<Rightarrow> nat \<Rightarrow> nat \<Rightarrow> jsval \<Rightarrow> page_state \<Rightarrow> step" where
  "on_response maxRetries maxProducts totalTake requested response st =
     (case (if truthy response then js_prop response ''data'' else Undefined) of
        Arr products \<Rightarrow>
          if products = [] then Break (st\<lparr>hasMore := False\<rparr>)
          else
            let count = js_prop response ''count'';
                st' = st\<lparr>consecutiveErrors := 0,
                         allProducts := allProducts st @ products,
                         hasMore :=
                           (if truthy count
                            then (case parseInt10 count of
                                    None \<Rightarrow> False
                                  | Some totalCount \<Rightarrow> int (skip st + totalTake) < totalCount)
                            else length products = requested),
                         skip := skip st + requested\<rparr>
            in if maxProducts \<le> enat (length (allProducts st')) then Break st' else Continue st'
      | _ \<Rightarrow> on_error maxRetries (Some (Error ''Invalid response format'')) st)"

definition category_step :: "config \<Rightarrow> server \<Rightarrow> string \<Rightarrow> enat \<Rightarrow> page_state \<Rightarrow> step" where
  "category_step cfg srv category maxProducts st =
     (let take' = the_enat (min (enat (batchSize cfg)) (maxProducts - enat (length (allProducts st))))
      in case getSearchResults cfg srv category (skip st) take' (world st) of
           (Inl thrown, w) \<Rightarrow> on_error (retryAttempts cfg) thrown (st\<lparr>world := w\<rparr>)
         | (Inr response, w) \<Rightarrow>
             on_response (retryAttempts cfg) maxProducts take' take' response (st\<lparr>world := w\<rparr>))"

text \<open>
  The URL loop calls \<open>makeApiRequest\<close> directly, without the retry wrapper; \<open>new URL(url)\<close>
  throws inside the \<open>try\<close> when the URL does not parse.
\<close>

definition url_step :: "runtime \<Rightarrow> server \<Rightarrow> string \<Rightarrow> enat \<Rightarrow> page_state \<Rightarrow> step" where
  "url_step rt srv url maxProducts st =
     (if \<not> url_valid rt url then on_error 3 (Some (TypeError ''Invalid URL'')) st
      else
        let currentTake = the_enat (min (enat 50) (maxProducts - enat (length (allProducts st))))
        in case makeApiRequest srv (UrlPage url (skip st) currentTake) (world st) of
             (Inl error, w) \<Rightarrow> on_error 3 (Some error) (st\<lparr>world := w\<rparr>)
           | (Inr response, w) \<Rightarrow>
               on_response 3 maxProducts 50 currentTake response (st\<lparr>world := w\<rparr>))"

text \<open>
  The \<open>while\<close> loop itself. With \<open>maxProducts = Infinity\<close> and a server that never runs
  out of pages it does not end: \<open>None\<close>. The result is the final state and what was
  thrown out of the loop, if anything.
\<close>

partial_function (option) pagination_loop ::
  "(page_state \<Rightarrow> step) \<Rightarrow> enat \<Rightarrow> nat \<Rightarrow> page_state \<Rightarrow> (jserr option \<times> page_state) option"
where
  "pagination_loop body maxProducts maxRetries st =
     (if hasMore st \<and> enat (length (allProducts st)) < maxProducts \<and> consecutiveErrors st < maxRetries
      then (case body st of
              Continue st' \<Rightarrow> pagination_loop body maxProducts maxRetries st'
            | Break st' \<Rightarrow> Some (None, st')
            | Throw error st' \<Rightarrow> Some (Some error, st'))
      else Some (None, st))"

declare pagination_loop.simps [code]

text \<open>\<open>if (allProducts.length > maxProducts) allProducts = allProducts.slice(0, maxProducts)\<close>\<close>

definition trim_to :: "enat \<Rightarrow> jsval list \<Rightarrow> jsval list" where
  "trim_to maxProducts products =
     (if maxProducts < enat (length products) then take (the_enat maxProducts) products
      else products)"

text \<open>
  The state in which the loop of \<open>fetchProductsByCategory\<close> ends (the counts probe made,
  the loop run), before trimming. A failed probe leaves the initial state.
\<close>

definition paginateCategory ::
  "config \<Rightarrow> server \<Rightarrow> string \<Rightarrow> enat \<Rightarrow> world \<Rightarrow> (jserr option \<times> page_state) option"
where
  "paginateCategory cfg srv category maxProducts w =
     pagination_loop (category_step cfg srv category maxProducts) maxProducts (retryAttempts cfg)
       (initial_state w)"

text \<open>
  \<open>fetchProductsByCategory\<close>. The outer \<open>catch\<close> logs the message of what was thrown and
  returns the empty list.
\<close>

definition fetchProductsByCategory ::
  "config \<Rightarrow> server \<Rightarrow> string \<Rightarrow> enat \<Rightarrow> world \<Rightarrow> ((jserr + jsval list) \<times> world) option"
where
  "fetchProductsByCategory cfg srv category maxProducts w =
     (case getCategoryCounts cfg srv category w of
        (Inl thrown, w1) \<Rightarrow> Some (bind_err (message_of_thrown thrown) (\<lambda>m. Inr []), w1)
      | (Inr countsData, w1) \<Rightarrow>
          (case paginateCategory cfg srv category maxProducts w1 of
             None \<Rightarrow> None
           | Some (Some error, st) \<Rightarrow> Some (Inr [], world st)
           | Some (None, st) \<Rightarrow> Some (Inr (trim_to maxProducts (allProducts st)), world st)))"

definition paginateUrl ::
  "runtime \<Rightarrow> server \<Rightarrow> string \<Rightarrow> enat \<Rightarrow> world \<Rightarrow> (jserr option \<times> page_state) option"
where
  "paginateUrl rt srv url maxProducts w =
     pagination_loop (url_step rt srv url maxProducts) maxProducts 3 (initial_state w)"

text \<open>\<open>fetchProductsByUrl\<close>; the check \<open>if (!url) throw\<close> stands before the outer \<open>try\<close>.\<close>

definition fetchProductsByUrl ::
  "runtime \<Rightarrow> server \<Rightarrow> string \<Rightarrow> enat \<Rightarrow> world \<Rightarrow> ((jserr + jsval list) \<times> world) option"
where
  "fetchProductsByUrl rt srv url maxProducts w =
     (if url = [] then Some (Inl (Error ''URL is required''), w)
      else (case paginateUrl rt srv url maxProducts w of
              None \<Rightarrow> None
            | Some (Some error, st) \<Rightarrow> Some (Inr [], world st)
            | Some (None, st) \<Rightarrow> Some (Inr (trim_to maxProducts (allProducts st)), world st)))"

section \<open>Pipeline orchestrator (\<open>scrape\<close>)\<close>

record options =
  maxProducts :: enat
  fetchDetails :: bool
  usePresetUrls :: bool

text \<open>
  \<open>initialize\<close>: of its steps only \<open>initializeApi\<close> touches the state modelled here (the
  API URL check rewrites a configuration entry that \<open>makeApiRequest\<close> does not read for
  its GET requests, and the cookie extraction is skipped because the configured cookie
  string is never empty); its \<open>catch\<close> logs and rethrows.
\<close>

definition initialize :: "config \<Rightarrow> server \<Rightarrow> world \<Rightarrow> (jserr + unit) \<times> world" where
  "initialize cfg srv w = initializeApi cfg srv w"

text \<open>
  The body shared by the three \<open>for\<close> loops of \<open>scrape\<close> (preset URLs, URL inputs, category
  inputs), which differ in the function that collects the products of one input.
\<close>

fun scrape_inputs ::
  "(string \<Rightarrow> enat \<Rightarrow> world \<Rightarrow> ((jserr + jsval list) \<times> world) option)
     \<Rightarrow> config \<Rightarrow> server \<Rightarrow> options \<Rightarrow> string list \<Rightarrow> jsval list \<Rightarrow> world
     \<Rightarrow> ((jserr + jsval list) \<times> world) option"
where
  "scrape_inputs fetch cfg srv opts [] collected w = Some (Inr collected, w)"
| "scrape_inputs fetch cfg srv opts (input # inputs) collected w =
     (let remainingProducts = maxProducts opts - enat (length collected)
      in if remainingProducts \<le> 0 then Some (Inr collected, w)
         else (case fetch input remainingProducts w of
                 None \<Rightarrow> None
               | Some (Inl error, w1) \<Rightarrow> Some (Inl error, w1)
               | Some (Inr products, w1) \<Rightarrow>
                   if products = [] then scrape_inputs fetch cfg srv opts inputs collected w1
                   else if fetchDetails opts
                   then (case fetchProductDetails cfg srv products w1 of
                           None \<Rightarrow> None
                         | Some (Inl error, w2) \<Rightarrow> Some (Inl error, w2)
                         | Some (Inr productsWithDetails, w2) \<Rightarrow>
                             scrape_inputs fetch cfg srv opts inputs
                               (collected @ productsWithDetails) w2)
                   else scrape_inputs fetch cfg srv opts inputs (collected @ products) w1))"

definition fetch_input ::
  "runtime \<Rightarrow> config \<Rightarrow> server \<Rightarrow> string \<Rightarrow> enat \<Rightarrow> world
     \<Rightarrow> ((jserr + jsval list) \<times> world) option"
where
  "fetch_input rt cfg srv category =
     (if prefix ''http'' category then fetchProductsByUrl rt srv category
      else fetchProductsByCategory cfg srv category)"

text \<open>
  The end of \<open>scrape\<close>: the collected raw items go through \<open>mapProducts\<close>; what was
  thrown before stays thrown.
\<close>

definition map_collected ::
  "runtime \<Rightarrow> ((jserr + jsval list) \<times> world) option \<Rightarrow> ((jserr + jsval list) \<times> world) option"
where
  "map_collected rt run =
     (case run of
        None \<Rightarrow> None
      | Some (Inl error, w) \<Rightarrow> Some (Inl error, w)
      | Some (Inr collected, w) \<Rightarrow> Some (Inr (mapProducts rt collected), w))"

text \<open>
  \<open>scrape\<close>, for a list of inputs. Whatever is thrown inside its \<open>try\<close> is logged and
  thrown again.
\<close>

definition scrape ::
  "runtime \<Rightarrow> config \<Rightarrow> server \<Rightarrow> string list \<Rightarrow> options \<Rightarrow> world
     \<Rightarrow> ((jserr + jsval list) \<times> world) option"
where
  "scrape rt cfg srv categoryList opts w =
     (if categoryList = [] then Some (Inr [], w)
      else (case initialize cfg srv w of
              (Inl error, w0) \<Rightarrow> Some (Inl error, w0)
            | (Inr u, w0) \<Rightarrow>
                map_collected rt
                  (if usePresetUrls opts \<and> categoryUrls cfg \<noteq> []
                   then scrape_inputs (fetchProductsByUrl rt srv) cfg srv opts (categoryUrls cfg) [] w0
                   else scrape_inputs (fetch_input rt cfg srv) cfg srv opts categoryList [] w0)))"

text \<open>The world after \<open>i\<close> successive calls of \<open>fn\<close>, and the outcome of the next call.\<close>

definition world_after :: "('s, 'e, 'a) operation \<Rightarrow> 's \<Rightarrow> nat \<Rightarrow> 's" where
  "world_after fn s i = ((\<lambda>w. snd (fn w)) ^^ i) s"

definition outcome_at :: "('s, 'e, 'a) operation \<Rightarrow> 's \<Rightarrow> nat \<Rightarrow> 'e + 'a" where
  "outcome_at fn s i = fst (fn (world_after fn s i))"

text \<open>
  An operation that fails on every call; its world is the number of calls made so far,
  and the message of the error thrown by a call has as many letters as calls were made
  before.
\<close>

definition alwaysFails :: "(nat, jserr option, 'a) operation" where
  "alwaysFails n = (Inl (Some (Error (replicate n CHR ''I''))), Suc n)"

text \<open>An operation that fails on its first \<open>k\<close> calls and returns \<open>v\<close> from then on.\<close>

definition failsThenSucceeds :: "nat \<Rightarrow> 'a \<Rightarrow> (nat, jserr option, 'a) operation" where
  "failsThenSucceeds k v n =
     (if n < k then Inl (Some (Error (replicate n CHR ''I''))) else Inr v, Suc n)"

text \<open>An operation that rejects with \<open>undefined\<close> on every call.\<close>

definition throwsUndefined :: "(nat, jserr option, 'a) operation" where
  "throwsUndefined n = (Inl None, Suc n)"

text \<open>The outcome of a call is a rejection with an error object.\<close>

definition is_error :: "jserr option + 'a \<Rightarrow> bool" where
  "is_error r = (case r of Inl (Some error) \<Rightarrow> True | _ \<Rightarrow> False)"

section \<open>Log output of the catalog client (api.js \<open>makeApiRequest\<close>)\<close>

text \<open>
  The log is the list of the lines handed to the logger, each with its level. Request
  headers are an object whose values are strings (no key twice).
\<close>

datatype level = LogDebug | LogInfo | LogWarn | LogError

type_synonym log_lines = "(level \<times> string) list"

fun str_includes :: "string \<Rightarrow> string \<Rightarrow> bool" where
  "str_includes [] sub = (sub = [])"
| "str_includes (c # cs) sub = (prefix sub (c # cs) \<or> str_includes cs sub)"

fun set_header :: "(string \<times> string) list \<Rightarrow> string \<Rightarrow> string \<Rightarrow> (string \<times> string) list" where
  "set_header [] k v = [(k, v)]"
| "set_header ((k', v') # hs) k v = (if k' = k then (k, v) # hs else (k', v') # set_header hs k v)"

definition cookie_hidden :: "string \<Rightarrow> string" where
  "cookie_hidden v = ''[COOKIE HIDDEN - LENGTH: '' @ show_nat (length v) @ '']''"

definition token_hidden :: "string \<Rightarrow> string" where
  "token_hidden v = ''[TOKEN HIDDEN - LENGTH: '' @ show_nat (length v) @ '']''"

text \<open>
  The sanitizing of \<open>makeApiRequest\<close>, on a copy of the headers: the \<open>Cookie\<close> value, if not
  empty, gives way to a note of its length, then so does the value of every header whose
  name starts with \<open>XvPW5hYbpt\<close>.
\<close>

definition hide_token :: "(string \<times> string) list \<Rightarrow> string \<Rightarrow> (string \<times> string) list" where
  "hide_token hs key =
     (if prefix ''XvPW5hYbpt'' key
      then (case map_of hs key of None \<Rightarrow> hs | Some v \<Rightarrow> set_header hs key (token_hidden v))
      else hs)"

definition sanitizedHeaders :: "(string \<times> string) list \<Rightarrow> (string \<times> string) list" where
  "sanitizedHeaders headers =
     (let hidden =
            (case map_of headers ''Cookie'' of
               None \<Rightarrow> headers
             | Some v \<Rightarrow> if v \<noteq> [] then set_header headers ''Cookie'' (cookie_hidden v) else headers)
      in foldl hide_token hidden (map fst hidden))"

text \<open>
  \<open>JSON.stringify\<close> of such an object (quotes and backslashes escaped; header values hold
  no control characters), and the line with the request headers.
\<close>

definition json_quote :: "string \<Rightarrow> string" where
  "json_quote s =
     [CHR 0x22] @ concat (map (\<lambda>c. if c = CHR 0x22 \<or> c = CHR 0x5C then [CHR 0x5C, c] else [c]) s)
       @ [CHR 0x22]"

definition json_object :: "(string \<times> string) list \<Rightarrow> string" where
  "json_object hs = ''{'' @ join '','' (map (\<lambda>(k, v). json_quote k @ '':'' @ json_quote v) hs) @ ''}''"

definition request_headers_log :: "(string \<times> string) list \<Rightarrow> string" where
  "request_headers_log headers = ''Request headers: '' @ json_object (sanitizedHeaders headers)"

text \<open>
  A response as the HTTP library hands it over: status, headers and body. The value of a
  response header is a string, or an array of strings (\<open>set-cookie\<close>).
\<close>

datatype header_value = Single string | Multiple "string list"

record api_response =
  resp_status :: int
  resp_headers :: "(string \<times> header_value) list"
  resp_data :: jsval

text \<open>
  The request resolves with a response (\<open>validateStatus\<close>: a status below 500), or rejects
  with an error that has a message, a response if one arrived, and possibly the URL of
  the request (\<open>error.config?.url\<close>).
\<close>

datatype transport = Resolved api_response | Rejected string "api_response option" "string option"

definition json_header_value :: "header_value \<Rightarrow> string" where
  "json_header_value v =
     (case v of
        Single s \<Rightarrow> json_quote s
      | Multiple ss \<Rightarrow> ''['' @ join '','' (map json_quote ss) @ '']'')"

definition json_headers :: "(string \<times> header_value) list \<Rightarrow> string" where
  "json_headers hs =
     ''{'' @ join '','' (map (\<lambda>(k, v). json_quote k @ '':'' @ json_header_value v) hs) @ ''}''"

text \<open>The first 200 characters of a body, as the diagnostics show it.\<close>

definition data_excerpt :: "runtime \<Rightarrow> jsval \<Rightarrow> string" where
  "data_excerpt rt d = take 200 (case d of Str s \<Rightarrow> s | _ \<Rightarrow> json_stringify rt d)"

text \<open>
  The \<open>catch\<close> block of \<open>makeApiRequest\<close>, for an error with the given message, response
  and URL: what it logs before it throws the error again. An error thrown inside the
  \<open>try\<close> block by the function itself has no response.
\<close>

definition catch_log :: "runtime \<Rightarrow> string \<Rightarrow> api_response option \<Rightarrow> string option \<Rightarrow> log_lines" where
  "catch_log rt msg response url =
     (case response of
        None \<Rightarrow> [(LogError, ''API request failed: '' @ msg)]
      | Some r \<Rightarrow>
          [(LogDebug, ''Response headers: '' @ json_headers (resp_headers r)),
           (LogError, ''Failed URL: ''
                        @ (case url of
                             None \<Rightarrow> ''unknown''
                           | Some u \<Rightarrow> if u \<noteq> [] then u else ''unknown'')),
           (LogError, ''API request failed: '' @ msg
                        @ '' - Status: '' @ show_int (resp_status r)
                        @ (if truthy (resp_data r)
                           then '' - Response: '' @ data_excerpt rt (resp_data r) @ ''...''
                           else []))])"

definition thrown_inside :: "runtime \<Rightarrow> jserr \<Rightarrow> log_lines \<Rightarrow> (jserr + jsval) \<times> log_lines" where
  "thrown_inside rt error logged = (Inl error, logged @ catch_log rt (message error) None None)"

text \<open>\<open>response.headers['content-type'] || ''\<close>, asked whether it includes \<open>text/html\<close>.\<close>

definition html_content_type :: "api_response \<Rightarrow> bool" where
  "html_content_type response =
     (case map_of (resp_headers response) ''content-type'' of
        None \<Rightarrow> False
      | Some (Single s) \<Rightarrow> str_includes s ''text/html''
      | Some (Multiple ss) \<Rightarrow> ''text/html'' \<in> set ss)"

text \<open>
  \<open>responseStr\<close>: the body if it is a string, its \<open>JSON.stringify\<close> otherwise, which is
  \<open>undefined\<close> (\<open>None\<close>) for the body \<open>undefined\<close>.
\<close>

definition responseStr :: "runtime \<Rightarrow> jsval \<Rightarrow> string option" where
  "responseStr rt d =
     (case d of Str s \<Rightarrow> Some s | Undefined \<Rightarrow> None | _ \<Rightarrow> Some (json_stringify rt d))"

text \<open>
  What \<open>makeApiRequest\<close> does once the request has resolved: the check for an HTML
  document, the note on an empty 400, and the return of \<open>response.data\<close>.
\<close>

definition on_resolved ::
  "runtime \<Rightarrow> (string \<times> string) list \<Rightarrow> string \<Rightarrow> api_response \<Rightarrow> log_lines
     \<Rightarrow> (jserr + jsval) \<times> log_lines"
where
  "on_resolved rt headers fullUrl response logged =
     (let logged1 = logged
            @ [(LogDebug, ''Response status: '' @ show_int (resp_status response))]
            @ (case map_of (resp_headers response) ''set-cookie'' of
                 None \<Rightarrow> []
               | Some (Single s) \<Rightarrow>
                   if s \<noteq> [] then [(LogDebug, ''Received new cookies from response'')] else []
               | Some (Multiple ss) \<Rightarrow> [(LogDebug, ''Received new cookies from response'')]);
          str = responseStr rt (resp_data response)
      in if html_content_type response
         then (case str of
                 None \<Rightarrow>
                   thrown_inside rt
                     (TypeError ''Cannot read properties of undefined (reading substring)'') logged1
               | Some s \<Rightarrow>
                   thrown_inside rt
                     (Error ''Received HTML response instead of JSON. Authentication may have failed.'')
                     (logged1 @ [(LogError, ''Received HTML response instead of JSON. Response preview: ''
                                              @ take 200 s @ ''...'')]))
         else (case str of
                 None \<Rightarrow>
                   thrown_inside rt
                     (TypeError ''Cannot read properties of undefined (reading includes)'') logged1
               | Some s \<Rightarrow>
                   if str_includes s ''<!DOCTYPE html>'' \<or> str_includes s ''<html''
                   then thrown_inside rt
                          (Error ''Received HTML response instead of JSON. Authentication may have failed.'')
                          (logged1 @ [(LogError, ''Received HTML response instead of JSON. Response preview: ''
                                                   @ take 200 s @ ''...'')])
                   else (Inr (resp_data response),
                         logged1
                           @ [(LogDebug, ''API request to '' @ fullUrl @ '' succeeded with status ''
                                           @ show_int (resp_status response))]
                           @ (if resp_status response = 400 \<and> \<not> truthy (resp_data response)
                              then [(LogError, ''Received 400 Bad Request with empty response body. This may indicate invalid authentication tokens or expired cookies.''),
                                    (LogDebug, ''Full request details: URL='' @ fullUrl @ '', Headers=''
                                                 @ take 500 (json_object (sanitizedHeaders headers)) @ ''...'')]
                              else []))))"

text \<open>
  One call of \<open>makeApiRequest\<close> with its log: \<open>headers\<close> are the request headers (the fixed
  profile with the custom headers laid over it), \<open>fullUrl\<close> is the URL built from the
  endpoint and the parameters, and \<open>outcome\<close> is what the HTTP library answers. The first
  component is what \<open>server\<close> stands for in the run of the pipeline.
\<close>

definition makeApiRequest_log ::
  "runtime \<Rightarrow> (string \<times> string) list \<Rightarrow> string \<Rightarrow> transport \<Rightarrow> (jserr + jsval) \<times> log_lines"
where
  "makeApiRequest_log rt headers fullUrl outcome =
     (case map_of headers ''Cookie'' of
        None \<Rightarrow> thrown_inside rt (TypeError ''Cannot read properties of undefined (reading length)'') []
      | Some cookie \<Rightarrow>
          (let logged = [(LogDebug, ''Using cookies (length: '' @ show_nat (length cookie) @ '')''),
                         (LogInfo, ''Making API request to: '' @ fullUrl),
                         (LogDebug, request_headers_log headers)]
           in case outcome of
                Rejected msg response url \<Rightarrow>
                  (Inl (Error msg), logged @ catch_log rt msg response url)
              | Resolved response \<Rightarrow> on_resolved rt headers fullUrl response logged))"

section \<open>Observations and sample inputs\<close>

text \<open>The years of the compatibility entries of a mapped part.\<close>

definition years_of :: "jsval \<Rightarrow> jsval list" where
  "years_of part =
     (case js_prop part ''compatibility'' of
        Arr entries \<Rightarrow> map (\<lambda>entry. js_prop entry ''year'') entries
      | _ \<Rightarrow> [])"

text \<open>
  A runtime for concrete instances: its \<open>JSON.parse\<close> knows the two texts used below and
  rejects every other, and the other three functions are constant.
\<close>

definition sample_runtime :: runtime where
  "sample_runtime =
     \<lparr>json_parse = (\<lambda>s. if s = ''[{\"SystemYear\":\"2015\"}]''
                          then Some (Arr [Obj [(''SystemYear'', Str ''2015'')]])
                          else if s = ''null'' then Some Null else None),
      json_stringify = (\<lambda>v. ''...''),
      to_number = (\<lambda>v. None),
      url_valid = (\<lambda>s. True)\<rparr>"

text \<open>
  What \<open>fetchProductDetails\<close> may put in the place of a product: the product itself, or
  \<open>{ ...product, details }\<close> for a truthy detail payload.
\<close>

definition merged :: "jsval \<Rightarrow> jsval \<Rightarrow> jsval" where
  "merged product details = Obj (setprop (own_entries product) ''details'' details)"

definition enriched :: "jsval \<Rightarrow> jsval \<Rightarrow> bool" where
  "enriched product result \<longleftrightarrow>
     result = product \<or> (\<exists>details. truthy details \<and> result = merged product details)"

text \<open>The defaults of config/index.js.\<close>

definition default_config :: config where
  "default_config =
     \<lparr>retryAttempts = 3, batchSize = 500, parallelRequests = 1,
      categoryUrls =
        [''https://www.lkqonline.com/api/catalog/0/product?catalogId=0&category=Engine%20Compartment%7CAlternator&sort=closestFirst&skip=0&take=50'',
         ''https://www.lkqonline.com/api/catalog/0/product?catalogId=0&category=Engine%20Compartment%7CBattery&sort=closestFirst&skip=0&take=50'']\<rparr>"

text \<open>A server that fails every request, and one that answers only detail requests.\<close>

definition failing_server :: server where
  "failing_server history = Inl (Error ''Network Error'')"

definition details_server :: server where
  "details_server history =
     (case rev history of
        ProductDetails productId # earlier \<Rightarrow> Inr (Obj [(''productId'', productId)])
      | _ \<Rightarrow> Inl (Error ''Network Error''))"

text \<open>The condition of the pagination loops, and the state that a pass leaves behind.\<close>

definition loop_condition :: "enat \<Rightarrow> nat \<Rightarrow> page_state \<Rightarrow> bool" where
  "loop_condition maxP maxR st \<longleftrightarrow>
     hasMore st \<and> enat (length (allProducts st)) < maxP \<and> consecutiveErrors st < maxR"

fun state_of :: "step \<Rightarrow> page_state" where
  "state_of (Continue st) = st"
| "state_of (Break st) = st"
| "state_of (Throw error st) = st"

text \<open>
  The skip and take of a page request; whether the answer to a request carries a
  non-empty array of products.
\<close>

fun page_of :: "request \<Rightarrow> (nat \<times> nat) option" where
  "page_of (SearchResults category s t) = Some (s, t)"
| "page_of (UrlPage url s t) = Some (s, t)"
| "page_of (CategoryCounts category) = None"
| "page_of (ProductDetails productId) = None"

definition delivers_page :: "jserr + jsval \<Rightarrow> bool" where
  "delivers_page outcome =
     (case outcome of
        Inl error \<Rightarrow> False
      | Inr response \<Rightarrow>
          truthy response \<and> (case js_prop response ''data'' of Arr products \<Rightarrow> products \<noteq> [] | _ \<Rightarrow> False))"

text \<open>
  The rule of the skip values. \<open>next_skip srv w s rs\<close> follows the requests \<open>rs\<close> issued
  after the history \<open>w\<close>, the first of which has to carry the skip \<open>s\<close>: each has to be a
  page request carrying the expected skip, and the skip expected of the next one is this
  skip plus this take if the server delivered a non-empty page, and this skip again
  otherwise. The result is the skip expected after \<open>rs\<close>, or \<open>None\<close> if a request breaks
  the rule.
\<close>

fun next_skip :: "server \<Rightarrow> world \<Rightarrow> nat \<Rightarrow> request list \<Rightarrow> nat option" where
  "next_skip srv w s [] = Some s"
| "next_skip srv w s (r # rs) =
     (case page_of r of
        None \<Rightarrow> None
      | Some (s0, t) \<Rightarrow>
          if s0 = s
          then next_skip srv (w @ [r]) (if delivers_page (srv (w @ [r])) then s + t else s) rs
          else None)"

definition skips :: "request list \<Rightarrow> nat list" where
  "skips rs = map (\<lambda>r. case page_of r of None \<Rightarrow> 0 | Some (s, t) \<Rightarrow> s) rs"

text \<open>
  A response that carries the given products and no total count; a server that answers
  the given requests, issued one after the other from the history \<open>w\<close>, with such
  responses.
\<close>

definition plain_page :: "jsval \<Rightarrow> jsval list \<Rightarrow> bool" where
  "plain_page response products \<longleftrightarrow>
     truthy response \<and> js_prop response ''data'' = Arr products
       \<and> \<not> truthy (js_prop response ''count'')"

fun serves :: "server \<Rightarrow> world \<Rightarrow> (request \<times> jsval list) list \<Rightarrow> bool" where
  "serves srv w [] = True"
| "serves srv w ((req, products) # rest) =
     ((case srv (w @ [req]) of Inl error \<Rightarrow> False | Inr response \<Rightarrow> plain_page response products)
        \<and> serves srv (w @ [req]) rest)"

text \<open>
  Two states of a pagination loop are related by the rule of the skip values: the later
  history extends the earlier one by requests that follow the rule, from the skip of the
  earlier state to the skip of the later one.
\<close>

definition follows_rule :: "server \<Rightarrow> page_state \<Rightarrow> page_state \<Rightarrow> bool" where
  "follows_rule srv s s' \<longleftrightarrow>
     (\<exists>rs. world s' = world s @ rs \<and> next_skip srv (world s) (skip s) rs = Some (skip s'))"

text \<open>The skips of all requests issued by a finished run; a server that fails once.\<close>

definition issued_skips :: "(jserr option \<times> page_state) option \<Rightarrow> nat list option" where
  "issued_skips run = map_option (\<lambda>(thrown, st). skips (world st)) run"

definition fails_once_server :: server where
  "fails_once_server history =
     (if length history = 1 then Inl (Error ''timeout'')
      else Inr (Obj [(''data'', Arr [Obj [(''id'', Num 1)]])]))"

definition sample_url :: string where
  "sample_url = ''https://www.lkqonline.com/api/catalog/0/product?catalogId=0&category=Battery''"

text \<open>
  A response with \<open>n\<close> products and no total count; a server that answers its first
  three requests with pages of 50, 50 and 12 products; the final \<open>hasMore\<close> and the
  number of collected products of a finished run.
\<close>

definition page_response :: "nat \<Rightarrow> jsval" where
  "page_response n = Obj [(''data'', Arr (replicate n (Obj [(''id'', Num 1)])))]"

definition three_pages_server :: server where
  "three_pages_server history =
     (if length history = 1 then Inr (page_response 50)
      else if length history = 2 then Inr (page_response 50)
      else if length history = 3 then Inr (page_response 12)
      else Inr (page_response 0))"

definition run_summary :: "(jserr option \<times> page_state) option \<Rightarrow> (bool \<times> nat) option" where
  "run_summary run = map_option (\<lambda>(thrown, st). (hasMore st, length (allProducts st))) run"

text \<open>
  An input whose page requests the server fails, whenever and with whatever skip and take
  they are issued.
\<close>

definition always_fails :: "server \<Rightarrow> string \<Rightarrow> bool" where
  "always_fails srv input \<longleftrightarrow>
     (\<forall>history s t. isl (srv (history @ [SearchResults input s t]))
                    \<and> isl (srv (history @ [UrlPage input s t])))"

text \<open>
  A server on which the category \<open>Alternator\<close> and every URL are down, while every other
  category has a single product; and options for a run over it.
\<close>

definition alternator_down_server :: server where
  "alternator_down_server history =
     (case rev history of
        SearchResults category s t # earlier \<Rightarrow>
          if category = ''Alternator'' then Inl (Error ''Network Error'') else Inr (page_response 1)
      | UrlPage url s t # earlier \<Rightarrow> Inl (Error ''Network Error'')
      | _ \<Rightarrow> Inr (page_response 0))"

definition sample_options :: options where
  "sample_options = \<lparr>maxProducts = 10, fetchDetails = False, usePresetUrls = False\<rparr>"

text \<open>
  What the sanitizing leaves of the value \<open>v\<close> of the header \<open>k\<close>.
\<close>

definition hidden_value :: "string \<Rightarrow> string \<Rightarrow> string" where
  "hidden_value k v =
     (if k = ''Cookie'' \<and> v \<noteq> [] then cookie_hidden v
      else if prefix ''XvPW5hYbpt'' k then token_hidden v else v)"

text \<open>
  Request headers with a session cookie and a security token, the URL of a search, and
  an answer of the upstream with status 503 that sets a session cookie.
\<close>

definition sample_headers :: "(string \<times> string) list" where
  "sample_headers =
     [(''Accept'', ''application/json''),
      (''Cookie'', ''sid=s3cr3t''),
      (''XvPW5hYbpt-a'', ''t0k3n'')]"

definition search_url :: string where
  "search_url = ''https://www.lkqonline.com/api/catalog/0/product?catalogId=0&action=GetSearchResults''"

definition unavailable :: transport where
  "unavailable =
     Rejected ''Request failed with status code 503''
       (Some \<lparr>resp_status = 503,
              resp_headers = [(''content-type'', Single ''text/plain''),
                              (''set-cookie'', Multiple [''session=n3ws3cr3t; Path=/; HttpOnly''])],
              resp_data = Str ''Service Unavailable''\<rparr>)
       (Some search_url)"

section \<open>Properties of the retry policy\<close>

declare retry_loop.simps [simp del]

lemma world_after_Suc: "world_after fn (snd (fn s)) i = world_after fn s (Suc i)"
  by (induction i) (simp_all add: world_after_def)

lemma outcome_at_Suc: "outcome_at fn (snd (fn s)) i = outcome_at fn s (Suc i)"
  by (simp add: outcome_at_def world_after_Suc)

lemma is_error_cases:
  assumes "is_error (fst (fn s))"
  obtains error s' where "fn s = (Inl (Some error), s')"
proof (cases "fn s")
  case (Pair r s')
  with assms obtain error where "r = Inl (Some error)"
    by (cases r) (auto simp: is_error_def split: option.splits)
  with Pair that show ?thesis by simp
qed

lemma retry_loop_step:
  assumes "fn s = (Inl (Some error), s')" and "int (Suc retries) \<le> maxRetries"
  shows "retry_loop fn maxRetries retries lastError sleeps s
           = retry_loop fn maxRetries (Suc retries) (Some error) (Suc sleeps) s'"
  using assms by (subst retry_loop.simps) (simp add: message_of_thrown_def)

lemma retry_loop_success:
  assumes "int retries + int k \<le> maxRetries"
    and "\<forall>i<k. is_error (outcome_at fn s i)"
    and "outcome_at fn s k = Inr v"
  shows "retry_loop fn maxRetries retries lastError sleeps s
           = (Inr v, sleeps + k, world_after fn s (Suc k))"
  using assms
proof (induction k arbitrary: retries lastError sleeps s)
  case 0
  then obtain s' where "fn s = (Inr v, s')"
    by (cases "fn s") (simp add: outcome_at_def world_after_def)
  with 0 show ?case
    by (subst retry_loop.simps) (simp add: world_after_def)
next
  case (Suc k)
  from Suc.prems(2) have "is_error (outcome_at fn s 0)" by blast
  then have "is_error (fst (fn s))" by (simp add: outcome_at_def world_after_def)
  then obtain e s' where e: "fn s = (Inl (Some e), s')" by (rule is_error_cases)
  then have s': "snd (fn s) = s'" by simp
  have ws: "world_after fn s' i = world_after fn s (Suc i)" for i
    using world_after_Suc [of fn s i] by (simp add: s')
  have step: "retry_loop fn maxRetries (Suc retries) (Some e) (Suc sleeps) (snd (fn s))
                = (Inr v, Suc sleeps + k, world_after fn (snd (fn s)) (Suc k))"
  proof (rule Suc.IH)
    show "int (Suc retries) + int k \<le> maxRetries" using Suc.prems(1) by simp
    show "\<forall>i<k. is_error (outcome_at fn (snd (fn s)) i)"
      using Suc.prems(2) by (simp add: outcome_at_Suc)
    show "outcome_at fn (snd (fn s)) k = Inr v"
      using Suc.prems(3) by (simp add: outcome_at_Suc)
  qed
  from Suc.prems(1) have "int (Suc retries) \<le> maxRetries" by simp
  with e have "retry_loop fn maxRetries retries lastError sleeps s
                 = retry_loop fn maxRetries (Suc retries) (Some e) (Suc sleeps) s'"
    by (rule retry_loop_step)
  with step [unfolded s'] show ?case by (simp add: ws)
qed

lemma retry_loop_exhausted:
  assumes "int retries + int k = maxRetries"
    and "\<forall>i<k. is_error (outcome_at fn s i)"
    and "outcome_at fn s k = Inl thrown"
  shows "retry_loop fn maxRetries retries lastError sleeps s
           = (Inl thrown, sleeps + k, world_after fn s (Suc k))"
  using assms
proof (induction k arbitrary: retries lastError sleeps s)
  case 0
  then obtain s' where e: "fn s = (Inl thrown, s')"
    by (cases "fn s") (auto simp: outcome_at_def world_after_def)
  with 0 show ?case
    by (subst retry_loop.simps) (simp add: world_after_def outcome_at_def)
next
  case (Suc k)
  from Suc.prems(2) have "is_error (outcome_at fn s 0)" by blast
  then have "is_error (fst (fn s))" by (simp add: outcome_at_def world_after_def)
  then obtain e s' where e: "fn s = (Inl (Some e), s')" by (rule is_error_cases)
  then have s': "snd (fn s) = s'" by simp
  have ws: "world_after fn s' i = world_after fn s (Suc i)" for i
    using world_after_Suc [of fn s i] by (simp add: s')
  have step: "retry_loop fn maxRetries (Suc retries) (Some e) (Suc sleeps) (snd (fn s))
                = (Inl thrown, Suc sleeps + k, world_after fn (snd (fn s)) (Suc k))"
  proof (rule Suc.IH)
    show "int (Suc retries) + int k = maxRetries" using Suc.prems(1) by simp
    show "\<forall>i<k. is_error (outcome_at fn (snd (fn s)) i)"
      using Suc.prems(2) by (simp add: outcome_at_Suc)
    show "outcome_at fn (snd (fn s)) k = Inl thrown"
      using Suc.prems(3) by (simp add: outcome_at_Suc)
  qed
  from Suc.prems(1) have "int (Suc retries) \<le> maxRetries" by simp
  with e have "retry_loop fn maxRetries retries lastError sleeps s
                 = retry_loop fn maxRetries (Suc retries) (Some e) (Suc sleeps) s'"
    by (rule retry_loop_step)
  with step [unfolded s'] show ?case by (simp add: ws)
qed

text \<open>
  C2, as the code has it. \<open>maxRetries\<close> bounds the retries, not the attempts: an operation
  whose first \<open>k \<le> maxRetries\<close> calls reject with error objects and whose next call
  succeeds yields its value after exactly \<open>k\<close> sleeps and \<open>k + 1\<close> calls; an operation
  whose first \<open>maxRetries\<close> calls reject with error objects and whose next call rejects
  as well makes the wrapper throw what that last call threw, unchanged, after exactly
  \<open>maxRetries\<close> sleeps and \<open>maxRetries + 1\<close> calls.
\<close>

theorem retry_retries_then_rethrows:
  "(int k \<le> maxRetries \<and> (\<forall>i<k. is_error (outcome_at fn s i)) \<and> outcome_at fn s k = Inr v
      \<longrightarrow> retry fn maxRetries s = (Inr v, k, world_after fn s (Suc k)))
   \<and> (int m = maxRetries \<and> (\<forall>i<m. is_error (outcome_at fn s i)) \<and> outcome_at fn s m = Inl thrown
      \<longrightarrow> retry fn maxRetries s = (Inl thrown, m, world_after fn s (Suc m)))"
proof (intro conjI impI)
  assume "int k \<le> maxRetries \<and> (\<forall>i<k. is_error (outcome_at fn s i)) \<and> outcome_at fn s k = Inr v"
  then show "retry fn maxRetries s = (Inr v, k, world_after fn s (Suc k))"
    using retry_loop_success [of 0 k maxRetries fn s v None 0] by (simp add: retry_def)
next
  assume a: "int m = maxRetries \<and> (\<forall>i<m. is_error (outcome_at fn s i)) \<and> outcome_at fn s m = Inl thrown"
  then show "retry fn maxRetries s = (Inl thrown, m, world_after fn s (Suc m))"
    using retry_loop_exhausted [of 0 m maxRetries fn s thrown None 0] by (simp add: retry_def)
qed

lemma alwaysFails_world: "world_after alwaysFails n i = n + i"
  by (induction i) (simp_all add: world_after_def alwaysFails_def)

lemma alwaysFails_outcome:
  "outcome_at alwaysFails n i = Inl (Some (Error (replicate (n + i) CHR ''I'')))"
  by (simp add: outcome_at_def alwaysFails_world) (simp add: alwaysFails_def)

lemma failsThenSucceeds_world: "world_after (failsThenSucceeds k v) n i = n + i"
  by (induction i) (simp_all add: world_after_def failsThenSucceeds_def)

lemma failsThenSucceeds_outcome:
  "outcome_at (failsThenSucceeds k v) n i =
     (if n + i < k then Inl (Some (Error (replicate (n + i) CHR ''I''))) else Inr v)"
  by (simp add: outcome_at_def failsThenSucceeds_world) (simp add: failsThenSucceeds_def)

theorem retry_retries_then_rethrows_witness:
  "retry (failsThenSucceeds 1 True) 3 0 = (Inr True, 1, 2)
   \<and> retry (alwaysFails :: (nat, jserr option, bool) operation) 2 0
       = (Inl (Some (Error ''II'')), 2, 3)"
  using retry_retries_then_rethrows
          [of 1 3 "failsThenSucceeds 1 True" 0 True 0 None]
        retry_retries_then_rethrows
          [of 0 2 "alwaysFails :: (nat, jserr option, bool) operation" 0 True 2
              "Some (Error ''II'')"]
  by (simp add: alwaysFails_outcome alwaysFails_world failsThenSucceeds_outcome
        failsThenSucceeds_world is_error_def numeral_2_eq_2)

text \<open>
  The count of attempts is not \<open>maxRetries\<close>: with \<open>maxRetries = 1\<close> an operation that
  always fails is called twice (the world of \<open>alwaysFails\<close> counts its calls).
\<close>

theorem retry_attempts_counterexample:
  "snd (snd (retry (alwaysFails :: (nat, jserr option, unit) operation) 1 0)) \<noteq> 1"
  by (simp add: retry_def retry_loop.simps [of _ _ 0] retry_loop.simps [of _ _ "Suc 0"]
        alwaysFails_def message_of_thrown_def)

text \<open>
  A rejection with \<open>undefined\<close> before the last attempt ends the wrapper at once: the
  warning of the \<open>catch\<close> block cannot read its message.
\<close>

lemma retry_undefined_rejection:
  "retry (throwsUndefined :: (nat, jserr option, unit) operation) 3 0
     = (Inl (Some (TypeError ''Cannot read properties of undefined (reading message)'')), 0, 1)"
  by (simp add: retry_def retry_loop.simps [of _ _ 0] throwsUndefined_def message_of_thrown_def)

text \<open>
  The loop on an operation that rejects with error objects only, and induction along its
  passes.
\<close>

lemma retry_loop_errors:
  "retry_loop (throwing_errors fn) maxRetries retries lastError sleeps s =
     (if int retries \<le> maxRetries then
        (case fn s of
           (Inr v, s') \<Rightarrow> (Inr v, sleeps, s')
         | (Inl error, s') \<Rightarrow>
             (if int (Suc retries) > maxRetries then (Inl (Some error), sleeps, s')
              else retry_loop (throwing_errors fn) maxRetries (Suc retries) (Some error) (Suc sleeps) s'))
      else (Inl lastError, sleeps, s))"
  by (subst retry_loop.simps)
     (auto simp: throwing_errors_def message_of_thrown_def split: prod.splits sum.splits)

lemma retry_loop_errors_induct [case_names step]:
  assumes "\<And>retries lastError sleeps s.
             (\<And>error s'. int retries \<le> maxRetries \<Longrightarrow> fn s = (Inl error, s')
                \<Longrightarrow> \<not> maxRetries < int (Suc retries)
                \<Longrightarrow> P (Suc retries) (Some error) (Suc sleeps) s')
             \<Longrightarrow> P retries lastError sleeps s"
  shows "P retries lastError sleeps s"
proof (induction "nat (maxRetries + 1 - int retries)" arbitrary: retries lastError sleeps s
       rule: less_induct)
  case less
  show ?case
  proof (rule assms)
    fix error s'
    assume "int retries \<le> maxRetries"
    then have "nat (maxRetries + 1 - int (Suc retries)) < nat (maxRetries + 1 - int retries)"
      by simp
    then show "P (Suc retries) (Some error) (Suc sleeps) s'" by (rule less)
  qed
qed

section \<open>Properties of the mapper\<close>

lemma truthy_not_nullish: "truthy v \<Longrightarrow> \<not> nullish v"
  by (cases v) simp_all

lemma bind_err_Inr_iff: "bind_err m f = Inr r \<longleftrightarrow> (\<exists>v. m = Inr v \<and> f v = Inr r)"
  by (cases m) (simp_all add: bind_err_def)

lemma try_block_object:
  assumes "try_block rt product = Inr r" and "truthy product"
  shows "\<exists>kvs. r = Obj kvs"
  using assms by (auto simp: try_block_def Let_def bind_err_Inr_iff)

lemma mapProductToPart_cases:
  "mapProductToPart rt product = Null \<and> \<not> truthy product
   \<or> (\<exists>kvs. mapProductToPart rt product = Obj kvs) \<and> truthy product"
proof (cases "truthy product")
  case False
  then show ?thesis by (simp add: mapProductToPart_def try_block_def)
next
  case True
  then show ?thesis
    using try_block_object [of rt product]
    by (cases "try_block rt product") (auto simp: mapProductToPart_def catch_block_def)
qed

text \<open>
  C7. \<open>mapProductToPart\<close> of mapper.js returns \<open>null\<close> exactly for an empty item, that is
  one that fails the test \<open>!product\<close> (\<open>null\<close>, \<open>undefined\<close>, \<open>false\<close>, \<open>0\<close>, the empty
  string). When the \<open>try\<close> block throws on any other item, the result is the minimal
  record: part number and name (with the defaults \<open>unknown\<close> and \<open>Unknown part\<close>), the
  source tag, and under \<open>otherParams\<close> the raw data and the message of the error. The
  caller \<open>mapProducts\<close> keeps exactly the results that are not \<open>null\<close>.
\<close>

theorem mapProductToPart_null_iff_empty:
  "(mapProductToPart rt product = Null \<longleftrightarrow> \<not> truthy product)
   \<and> (truthy product \<and> try_block rt product = Inl error \<longrightarrow>
        mapProductToPart rt product =
          Obj [(''partNumber'',
                  js_or (js_or (js_prop product ''number'') (js_prop product ''id'')) (Str ''unknown'')),
               (''name'',
                  js_or (js_or (js_prop product ''descriptionRetail'') (js_prop product ''description''))
                    (Str ''Unknown part'')),
               (''source'', Str ''lkq''),
               (''otherParams'',
                  Obj [(''rawData'', Str (json_stringify rt product)),
                       (''mappingError'', Str (message error))])])
   \<and> mapProducts rt products = filter (\<lambda>r. r \<noteq> Null) (map (mapProductToPart rt) products)"
proof (intro conjI impI)
  show "mapProductToPart rt product = Null \<longleftrightarrow> \<not> truthy product"
    using mapProductToPart_cases [of rt product] by auto
next
  assume "truthy product \<and> try_block rt product = Inl error"
  then show "mapProductToPart rt product =
          Obj [(''partNumber'',
                  js_or (js_or (js_prop product ''number'') (js_prop product ''id'')) (Str ''unknown'')),
               (''name'',
                  js_or (js_or (js_prop product ''descriptionRetail'') (js_prop product ''description''))
                    (Str ''Unknown part'')),
               (''source'', Str ''lkq''),
               (''otherParams'',
                  Obj [(''rawData'', Str (json_stringify rt product)),
                       (''mappingError'', Str (message error))])]"
    by (simp add: mapProductToPart_def catch_block_def opt_prop_def truthy_not_nullish)
next
  have "truthy (mapProductToPart rt p) \<longleftrightarrow> mapProductToPart rt p \<noteq> Null" for p
    using mapProductToPart_cases [of rt p] by auto
  then show "mapProducts rt products = filter (\<lambda>r. r \<noteq> Null) (map (mapProductToPart rt) products)"
    by (simp add: mapProducts_def filter_map comp_def)
qed

lemma try_block_null_fitments:
  "try_block sample_runtime (Obj [(''fitmentJson'', Str ''null''), (''id'', Num 7)])
     = Inl (TypeError ''Cannot read properties of null (reading map)'')"
  by (simp add: try_block_def sample_runtime_def parse_embedded_def array_map_def bind_err_def)

theorem mapProductToPart_null_iff_empty_witness:
  "mapProductToPart sample_runtime (Obj [(''fitmentJson'', Str ''null''), (''id'', Num 7)])
     = Obj [(''partNumber'', Num 7),
            (''name'', Str ''Unknown part''),
            (''source'', Str ''lkq''),
            (''otherParams'',
               Obj [(''rawData'', Str ''...''),
                    (''mappingError'', Str ''Cannot read properties of null (reading map)'')])]
   \<and> mapProductToPart sample_runtime Null = Null
   \<and> mapProducts sample_runtime [Null] = []"
  using mapProductToPart_null_iff_empty
          [of sample_runtime "Obj [(''fitmentJson'', Str ''null''), (''id'', Num 7)]"
              "TypeError ''Cannot read properties of null (reading map)''" "[Null]"]
        mapProductToPart_null_iff_empty [of sample_runtime Null]
        try_block_null_fitments
  by (simp add: js_or_def sample_runtime_def)

text \<open>
  C8. The two copies of \<open>mapProductToPart\<close> disagree on the year of a compatibility entry:
  for a product whose fitment text parses to one fitment with the year given as a string
  of digits, mapper.js returns that string and the second copy returns the number that
  \<open>parseInt\<close> reads from it.
\<close>

theorem year_field_differs:
  "txt \<noteq> [] \<and> json_parse rt txt = Some (Arr [Obj [(''SystemYear'', Str y)]])
     \<and> y \<noteq> [] \<and> parseInt_str y = Some n
   \<longrightarrow> years_of (mapProductToPart rt (Obj [(''fitmentJson'', Str txt)])) = [Str y]
       \<and> years_of (mapProductToPart_copy rt (Obj [(''fitmentJson'', Str txt)])) = [Num n]"
  by (simp add: years_of_def mapProductToPart_def mapProductToPart_copy_def try_block_def
        try_block_copy_def parse_embedded_def array_map_def bind_err_def compatibility_entry_def
        compatibility_entry_copy_def getprop_def js_or_def parseInt10_def image_entry_def
        source_vehicle_images_def price_of_def specifications_of_def category_of_def
        str_split_def part_fields_def)

lemma parseInt_str_2015: "parseInt_str ''2015'' = Some 2015"
  by (simp add: parseInt_str_def is_space_def is_digit_def digits_val_def digit_val_def)

theorem year_field_differs_witness:
  "years_of (mapProductToPart sample_runtime (Obj [(''fitmentJson'', Str ''[{\"SystemYear\":\"2015\"}]'')]))
     = [Str ''2015'']
   \<and> years_of (mapProductToPart_copy sample_runtime
                  (Obj [(''fitmentJson'', Str ''[{\"SystemYear\":\"2015\"}]'')]))
     = [Num 2015]"
  using year_field_differs [of "''[{\"SystemYear\":\"2015\"}]''" sample_runtime "''2015''" 2015]
        parseInt_str_2015
  by (simp add: sample_runtime_def)


section \<open>Properties of the detail enrichment\<close>

lemma chunk_loop_positive:
  assumes "0 < sz"
  shows "\<exists>cs. chunk_loop array sz i chunks = Some (chunks @ cs) \<and> concat cs = drop i array"
proof (induction "length array - i" arbitrary: i chunks rule: less_induct)
  case less
  show ?case
  proof (cases "i < length array")
    case True
    with assms have "length array - (i + sz) < length array - i" by arith
    from less [OF this, of "chunks @ [take sz (drop i array)]"]
    obtain cs where cs: "chunk_loop array sz (i + sz) (chunks @ [take sz (drop i array)])
                           = Some ((chunks @ [take sz (drop i array)]) @ cs)"
      and cc: "concat cs = drop (i + sz) array" by blast
    have "take sz (drop i array) @ drop (i + sz) array = drop i array"
      by (metis add.commute append_take_drop_id drop_drop)
    with cs cc True show ?thesis
      by (subst chunk_loop.simps) (auto intro!: exI [of _ "take sz (drop i array) # cs"])
  next
    case False
    then show ?thesis by (subst chunk_loop.simps) simp
  qed
qed

lemma chunk_positive: "0 < sz \<Longrightarrow> \<exists>cs. chunk array sz = Some cs \<and> concat cs = array"
  using chunk_loop_positive [of sz array 0 "[]"] by (simp add: chunk_def)

lemma chunk_loop_zero:
  assumes "chunk_loop array sz i chunks = Some y"
  shows "\<not> (sz = 0 \<and> i < length array)"
proof (rule chunk_loop.raw_induct
        [where P = "\<lambda>array sz i chunks y. \<not> (sz = 0 \<and> i < length array)", OF _ assms],
       goal_cases)
  case (1 f array sz i chunks y)
  show ?case
  proof
    assume a: "sz = 0 \<and> i < length array"
    with 1(2) have "f array 0 i (chunks @ [take 0 (drop i array)]) = Some y" by simp
    from 1(1) [OF this] a show False by simp
  qed
qed

lemma chunk_zero: "array \<noteq> [] \<Longrightarrow> chunk array 0 = None"
  using chunk_loop_zero [of array 0 0 "[]"] by (cases "chunk array 0") (auto simp: chunk_def)

lemma retry_loop_not_undefined:
  "int retries \<le> m \<Longrightarrow>
   fst (retry_loop (throwing_errors fn) m retries lastError sleeps s) \<noteq> Inl None"
proof (induction retries lastError sleeps s rule: retry_loop_errors_induct [where fn = fn and maxRetries = m])
  case (step retries lastError sleeps s)
  obtain r s' where fs: "fn s = (r, s')" by (cases "fn s")
  show ?case
  proof (cases r)
    case (Inr v)
    with fs step.prems show ?thesis by (subst retry_loop_errors) simp
  next
    case (Inl e)
    show ?thesis
    proof (cases "m < int (Suc retries)")
      case True
      with fs Inl step.prems show ?thesis by (subst retry_loop_errors) simp
    next
      case False
      with step.prems fs Inl
      have "fst (retry_loop (throwing_errors fn) m (Suc retries) (Some e) (Suc sleeps) s') \<noteq> Inl None"
        by (intro step.IH) simp_all
      with fs Inl False step.prems show ?thesis by (subst retry_loop_errors) simp
    qed
  qed
qed

lemma retried_not_undefined: "0 \<le> m \<Longrightarrow> retried fn m s \<noteq> (Inl None, w')"
  using retry_loop_not_undefined [of 0 m fn None 0 s]
  by (auto simp: retried_def retry_def split: prod.splits)

lemma enrichProduct_cases:
  "enrichProduct cfg srv product w =
     (let productId = js_or (js_prop product ''id'') (js_prop product ''productId'')
      in if nullish product \<or> \<not> truthy productId then (Inr product, w)
         else (case getProductDetails cfg srv productId w of
                 (Inl thrown, w') \<Rightarrow> (Inr product, w')
               | (Inr details, w') \<Rightarrow>
                   (Inr (if truthy details then merged product details else product), w')))"
proof -
  have "getProductDetails cfg srv pid w \<noteq> (Inl None, w')" for pid w'
    by (simp add: getProductDetails_def retried_not_undefined)
  then show ?thesis
    by (auto simp: enrichProduct_def getprop_def Let_def merged_def split: prod.splits sum.splits option.splits)
qed

lemma enrichProduct_enriched:
  "\<exists>result w'. enrichProduct cfg srv product w = (Inr result, w') \<and> enriched product result"
  by (auto simp: enrichProduct_cases Let_def enriched_def split: prod.splits sum.splits)

lemma enrichGroup_enriched:
  "\<exists>results w'. enrichGroup cfg srv batch w = (Inr results, w') \<and> list_all2 enriched batch results"
proof (induction batch arbitrary: w)
  case Nil
  then show ?case by simp
next
  case (Cons product batch)
  obtain result w1 where 1: "enrichProduct cfg srv product w = (Inr result, w1)" "enriched product result"
    using enrichProduct_enriched by blast
  obtain results w2 where 2: "enrichGroup cfg srv batch w1 = (Inr results, w2)" "list_all2 enriched batch results"
    using Cons.IH by blast
  from 1 2 show ?case by simp
qed

lemma enrichGroup_append:
  "enrichGroup cfg srv (xs @ ys) w =
     (case enrichGroup cfg srv xs w of
        (Inl error, w') \<Rightarrow> (Inl error, w')
      | (Inr results, w') \<Rightarrow>
          (case enrichGroup cfg srv ys w' of
             (Inl error, w'') \<Rightarrow> (Inl error, w'')
           | (Inr results', w'') \<Rightarrow> (Inr (results @ results'), w'')))"
  by (induction xs arbitrary: w) (auto split: prod.splits sum.splits)

lemma enrichGroups_concat:
  "enrichGroups cfg srv batches acc w =
     (case enrichGroup cfg srv (concat batches) w of
        (Inl error, w') \<Rightarrow> (Inl error, w')
      | (Inr results, w') \<Rightarrow> (Inr (acc @ results), w'))"
  by (induction batches arbitrary: acc w) (auto simp: enrichGroup_append split: prod.splits sum.splits)

lemma fetchProductDetails_positive:
  assumes "0 < parallelRequests cfg"
  shows "fetchProductDetails cfg srv products w = Some (enrichGroup cfg srv products w)"
proof (cases "products = []")
  case True
  then show ?thesis by (simp add: fetchProductDetails_def)
next
  case False
  from assms obtain cs where "chunk products (parallelRequests cfg) = Some cs" "concat cs = products"
    using chunk_positive by blast
  with False show ?thesis
    by (auto simp: fetchProductDetails_def enrichGroups_concat split: prod.splits sum.splits)
qed

lemma fetchProductDetails_returns:
  assumes "fetchProductDetails cfg srv products w = Some r"
  shows "r = enrichGroup cfg srv products w"
proof (cases "products = [] \<or> 0 < parallelRequests cfg")
  case True
  with assms show ?thesis
    using fetchProductDetails_positive [of cfg srv products w]
    by (auto simp: fetchProductDetails_def)
next
  case False
  with assms show ?thesis
    by (simp add: fetchProductDetails_def chunk_zero)
qed


text \<open>
  C6, as the code has it: for every list of items and every concurrency of at least 1,
  \<open>fetchProductDetails\<close> returns, and returns exactly one output item per input item,
  each being the input item itself or that item merged with a detail payload under
  \<open>details\<close>. For one item: without an id (or for a \<open>null\<close> item) it is returned as it is
  and no request is made; otherwise it is merged with the payload if the detail call
  returns a truthy one, and returned as it is if the call throws or returns nothing.
\<close>

theorem fetchProductDetails_one_output_per_input:
  "(0 < parallelRequests cfg \<longrightarrow>
      (\<exists>out w'. fetchProductDetails cfg srv products w = Some (Inr out, w')
         \<and> length out = length products \<and> list_all2 enriched products out))
   \<and> enrichProduct cfg srv product w =
       (let productId = js_or (js_prop product ''id'') (js_prop product ''productId'')
        in if nullish product \<or> \<not> truthy productId then (Inr product, w)
           else (case getProductDetails cfg srv productId w of
                   (Inl thrown, w') \<Rightarrow> (Inr product, w')
                 | (Inr details, w') \<Rightarrow>
                     (Inr (if truthy details then merged product details else product), w')))"
proof (intro conjI impI)
  assume "0 < parallelRequests cfg"
  then have "fetchProductDetails cfg srv products w = Some (enrichGroup cfg srv products w)"
    by (rule fetchProductDetails_positive)
  moreover obtain out w' where "enrichGroup cfg srv products w = (Inr out, w')"
      "list_all2 enriched products out"
    using enrichGroup_enriched by blast
  ultimately show "\<exists>out w'. fetchProductDetails cfg srv products w = Some (Inr out, w')
         \<and> length out = length products \<and> list_all2 enriched products out"
    by (auto dest: list_all2_lengthD)
qed (rule enrichProduct_cases)

theorem fetchProductDetails_one_output_per_input_witness:
  "0 < parallelRequests default_config
   \<and> (\<exists>out w'. fetchProductDetails default_config details_server
                   [Obj [(''id'', Num 1)], Obj [(''name'', Str ''x'')]] [] = Some (Inr out, w')
         \<and> length out = 2
         \<and> list_all2 enriched [Obj [(''id'', Num 1)], Obj [(''name'', Str ''x'')]] out)"
proof -
  have pos: "0 < parallelRequests default_config" by (simp add: default_config_def)
  from fetchProductDetails_one_output_per_input
         [of default_config details_server "[Obj [(''id'', Num 1)], Obj [(''name'', Str ''x'')]]"
             "[]" Null] pos
  show ?thesis by auto
qed

text \<open>
  With a concurrency of 0 the partition into groups never ends, and the batcher returns
  nothing at all.
\<close>

theorem fetchProductDetails_zero_concurrency_counterexample:
  "fetchProductDetails (default_config\<lparr>parallelRequests := 0\<rparr>) details_server
     [Obj [(''id'', Num 1)]] [] = None"
  by (simp add: fetchProductDetails_def chunk_zero)


lemma retried_first_success:
  assumes "fn s = (Inr v, s')" and "0 \<le> m"
  shows "retried fn m s = (Inr v, s')"
  using assms by (simp add: retried_def retry_def) (subst retry_loop_errors, simp)




section \<open>Properties of the pagination controller\<close>

lemma pagination_loop_rel:
  assumes run: "pagination_loop body maxP maxR st = Some res"
    and refl: "\<And>s. R s s"
    and trans: "\<And>a b c. R a b \<Longrightarrow> R b c \<Longrightarrow> R a c"
    and step: "\<And>s. loop_condition maxP maxR s \<Longrightarrow> R s (state_of (body s))"
  shows "R st (snd res)"
proof -
  have "body' = body \<and> maxP' = maxP \<and> maxR' = maxR \<longrightarrow> R st (snd res)"
    if "pagination_loop body' maxP' maxR' st = Some res" for body' maxP' maxR'
    using that
  proof (rule pagination_loop.raw_induct
           [where P = "\<lambda>b mp mr s y. b = body \<and> mp = maxP \<and> mr = maxR \<longrightarrow> R s (snd y)", rotated],
         goal_cases)
    case (1 f b mp mr s y)
    show ?case
    proof
      assume eq: "b = body \<and> mp = maxP \<and> mr = maxR"
      show "R s (snd y)"
      proof (cases "loop_condition maxP maxR s")
        case False
        with 1(2) eq have "y = (None, s)" by (auto simp: loop_condition_def split: if_splits)
        then show ?thesis by (simp add: refl)
      next
        case True
        from step [OF True] have rs: "R s (state_of (body s))" .
        show ?thesis
        proof (cases "body s")
          case (Continue s')
          with 1(2) eq True have "f body maxP maxR s' = Some y"
            by (auto simp: loop_condition_def)
          from 1(1) [OF this] have "R s' (snd y)" by simp
          with rs Continue show ?thesis by (auto intro: trans)
        next
          case (Break s')
          with 1(2) eq True have "y = (None, s')" by (auto simp: loop_condition_def)
          with rs Break show ?thesis by simp
        next
          case (Throw e s')
          with 1(2) eq True have "y = (Some e, s')" by (auto simp: loop_condition_def)
          with rs Throw show ?thesis by simp
        qed
      qed
    qed
  qed
  from this [OF run] show ?thesis by simp
qed

lemma pagination_loop_terminates:
  assumes wf: "wf r"
    and step: "\<And>s s'. loop_condition maxP maxR s \<Longrightarrow> body s = Continue s' \<Longrightarrow> (s', s) \<in> r"
  shows "\<exists>res. pagination_loop body maxP maxR st = Some res"
  using wf
proof (induction st rule: wf_induct_rule)
  case (less s)
  show ?case
  proof (cases "loop_condition maxP maxR s")
    case False
    then show ?thesis by (subst pagination_loop.simps) (auto simp: loop_condition_def)
  next
    case True
    show ?thesis
    proof (cases "body s")
      case (Continue s')
      from less [OF step [OF True Continue]] Continue True show ?thesis
        by (subst pagination_loop.simps) (auto simp: loop_condition_def)
    next
      case (Break s')
      with True show ?thesis by (subst pagination_loop.simps) (auto simp: loop_condition_def)
    next
      case (Throw e s')
      with True show ?thesis by (subst pagination_loop.simps) (auto simp: loop_condition_def)
    qed
  qed
qed

lemma state_of_on_error [simp]:
  "state_of (on_error m thrown st) = st\<lparr>consecutiveErrors := Suc (consecutiveErrors st)\<rparr>"
  by (simp add: on_error_def Let_def message_of_thrown_def split: option.splits)

lemma on_error_Continue:
  "on_error m thrown st = Continue st' \<Longrightarrow>
     st' = st\<lparr>consecutiveErrors := Suc (consecutiveErrors st)\<rparr> \<and> Suc (consecutiveErrors st) < m"
  by (auto simp: on_error_def Let_def message_of_thrown_def split: option.splits if_splits)

lemma on_response_skip:
  "skip (state_of (on_response m maxP tt requested response st))
     = (if delivers_page (Inr response) then skip st + requested else skip st)"
  by (auto simp: on_response_def delivers_page_def Let_def split: jsval.splits)

lemma on_response_world [simp]:
  "world (state_of (on_response m maxP tt requested response st)) = world st"
  by (auto simp: on_response_def Let_def split: jsval.splits)

lemma on_response_Continue:
  assumes "on_response m maxP tt requested response st = Continue st'"
  shows "length (allProducts st) < length (allProducts st') \<and> enat (length (allProducts st')) < maxP
         \<or> allProducts st' = allProducts st \<and> consecutiveErrors st' = Suc (consecutiveErrors st)
             \<and> consecutiveErrors st' < m"
  using assms
  by (auto simp: on_response_def Let_def split: jsval.splits if_splits dest!: on_error_Continue)

lemma on_response_plain:
  assumes "plain_page response products" and "products \<noteq> []"
  shows "on_response m maxP tt requested response st =
           (let st' = st\<lparr>consecutiveErrors := 0, allProducts := allProducts st @ products,
                         hasMore := (length products = requested), skip := skip st + requested\<rparr>
            in if maxP \<le> enat (length (allProducts st')) then Break st' else Continue st')"
  using assms by (simp add: on_response_def plain_page_def Let_def)

lemma retry_loop_requests:
  assumes "retry_loop (throwing_errors (makeApiRequest srv req)) m r lastError sl w = (res, sl', w')"
    and "int r \<le> m"
  shows "\<exists>n. w' = w @ replicate (Suc n) req
           \<and> (\<forall>i<n. isl (srv (w @ replicate (Suc i) req)))
           \<and> res = (case srv w' of Inl e \<Rightarrow> Inl (Some e) | Inr v \<Rightarrow> Inr v)"
  using assms
proof (induction r lastError sl w arbitrary: res sl' w'
       rule: retry_loop_errors_induct [where fn = "makeApiRequest srv req" and maxRetries = m])
  case (step r lastError sl w)
  show ?case
  proof (cases "srv (w @ [req])")
    case (Inr v)
    with step.prems have "res = Inr v \<and> w' = w @ [req]"
      by (subst (asm) retry_loop_errors) (simp add: makeApiRequest_def)
    with Inr show ?thesis by (intro exI [of _ 0]) simp
  next
    case (Inl e)
    show ?thesis
    proof (cases "m < int (Suc r)")
      case True
      with Inl step.prems have "res = Inl (Some e) \<and> w' = w @ [req]"
        by (subst (asm) retry_loop_errors) (simp add: makeApiRequest_def)
      with Inl show ?thesis by (intro exI [of _ 0]) simp
    next
      case False
      with Inl step.prems
      have rec: "retry_loop (throwing_errors (makeApiRequest srv req)) m (Suc r) (Some e) (Suc sl) (w @ [req])
                   = (res, sl', w')"
        by (subst (asm) retry_loop_errors) (simp add: makeApiRequest_def)
      have call: "makeApiRequest srv req w = (Inl e, w @ [req])"
        using Inl by (simp add: makeApiRequest_def)
      from False have le: "int (Suc r) \<le> m" by simp
      from step.IH [OF step.prems(2) call False rec le]
      obtain n where n: "w' = (w @ [req]) @ replicate (Suc n) req"
          "\<forall>i<n. isl (srv ((w @ [req]) @ replicate (Suc i) req))"
          "res = (case srv w' of Inl e \<Rightarrow> Inl (Some e) | Inr v \<Rightarrow> Inr v)"
        by (auto simp: makeApiRequest_def)
      have shift: "(w @ [req]) @ replicate k req = w @ replicate (Suc k) req" for k
        by (simp add: replicate_app_Cons_same)
      have "\<forall>i<Suc n. isl (srv (w @ replicate (Suc i) req))"
      proof (intro allI impI)
        fix i assume "i < Suc n"
        show "isl (srv (w @ replicate (Suc i) req))"
        proof (cases i)
          case 0
          with Inl show ?thesis by simp
        next
          case (Suc j)
          with \<open>i < Suc n\<close> n(2) have "isl (srv ((w @ [req]) @ replicate (Suc j) req))" by simp
          with Suc show ?thesis by (simp only: shift)
        qed
      qed
      moreover have "w' = w @ replicate (Suc (Suc n)) req"
        using n(1) by (simp add: replicate_app_Cons_same)
      ultimately show ?thesis using n(3) by blast
    qed
  qed
qed

lemma retried_requests:
  assumes "retried (makeApiRequest srv req) (int k) w = (res, w')"
  shows "\<exists>n. w' = w @ replicate (Suc n) req
           \<and> (\<forall>i<n. isl (srv (w @ replicate (Suc i) req)))
           \<and> res = (case srv w' of Inl e \<Rightarrow> Inl (Some e) | Inr v \<Rightarrow> Inr v)"
proof -
  from assms obtain sl' where
    "retry_loop (throwing_errors (makeApiRequest srv req)) (int k) 0 None 0 w = (res, sl', w')"
    by (auto simp: retried_def retry_def split: prod.splits)
  then show ?thesis by (rule retry_loop_requests) simp
qed

lemma next_skip_append:
  "next_skip srv w s (rs @ rs') =
     (case next_skip srv w s rs of None \<Rightarrow> None | Some s' \<Rightarrow> next_skip srv (w @ rs) s' rs')"
  by (induction rs arbitrary: w s) (auto split: option.splits)

lemma not_delivers_isl: "isl outcome \<Longrightarrow> \<not> delivers_page outcome"
  by (cases outcome) (simp_all add: delivers_page_def)

lemma next_skip_failures:
  assumes "\<forall>i<n. isl (srv (w @ replicate (Suc i) req))" and "page_of req = Some (s, t)"
  shows "next_skip srv w s (replicate n req) = Some s"
  using assms
proof (induction n arbitrary: w)
  case 0
  then show ?case by simp
next
  case (Suc n)
  have shift: "(w @ [req]) @ replicate k req = w @ replicate (Suc k) req" for k
    by (simp add: replicate_app_Cons_same)
  from Suc.prems(1) have "isl (srv (w @ replicate (Suc 0) req))" by blast
  then have first: "\<not> delivers_page (srv (w @ [req]))"
    by (auto dest: not_delivers_isl)
  have "\<forall>i<n. isl (srv ((w @ [req]) @ replicate (Suc i) req))"
    using Suc.prems(1) by (auto simp only: shift)
  from Suc.IH [OF this Suc.prems(2)] first Suc.prems(2) show ?case by simp
qed

lemma next_skip_retried:
  assumes "\<forall>i<n. isl (srv (w @ replicate (Suc i) req))" and "page_of req = Some (s, t)"
  shows "next_skip srv w s (replicate (Suc n) req)
           = Some (if delivers_page (srv (w @ replicate (Suc n) req)) then s + t else s)"
proof -
  have "replicate (Suc n) req = replicate n req @ [req]"
    by (simp add: replicate_append_same)
  moreover have "(w @ replicate n req) @ [req] = w @ replicate (Suc n) req"
    by (simp add: replicate_append_same)
  ultimately show ?thesis
    using next_skip_failures [OF assms] assms(2)
    by (simp only: next_skip_append) (simp del: replicate_Suc)
qed

lemma follows_rule_refl: "follows_rule srv s s"
  by (auto simp: follows_rule_def)

lemma follows_rule_trans:
  assumes "follows_rule srv a b" and "follows_rule srv b c"
  shows "follows_rule srv a c"
proof -
  from assms obtain rs rs' where
    "world b = world a @ rs" "next_skip srv (world a) (skip a) rs = Some (skip b)"
    "world c = world b @ rs'" "next_skip srv (world b) (skip b) rs' = Some (skip c)"
    by (auto simp: follows_rule_def)
  then show ?thesis
    unfolding follows_rule_def by (intro exI [of _ "rs @ rs'"]) (simp add: next_skip_append)
qed

lemma category_step_rule:
  "follows_rule srv st (state_of (category_step cfg srv category maxP st))"
proof -
  define t where "t = the_enat (min (enat (batchSize cfg)) (maxP - enat (length (allProducts st))))"
  define req where "req = SearchResults category (skip st) t"
  obtain res w' where call: "getSearchResults cfg srv category (skip st) t (world st) = (res, w')"
    by (cases "getSearchResults cfg srv category (skip st) t (world st)")
  then obtain n where n: "w' = world st @ replicate (Suc n) req"
      "\<forall>i<n. isl (srv (world st @ replicate (Suc i) req))"
      "res = (case srv w' of Inl e \<Rightarrow> Inl (Some e) | Inr v \<Rightarrow> Inr v)"
    using retried_requests [of srv req "retryAttempts cfg" "world st" res w']
    by (auto simp: getSearchResults_def req_def)
  have page: "page_of req = Some (skip st, t)" by (simp add: req_def)
  have ns: "next_skip srv (world st) (skip st) (replicate (Suc n) req)
              = Some (if delivers_page (srv w') then skip st + t else skip st)"
    using next_skip_retried [OF n(2) page] n(1) by simp
  show ?thesis
  proof (cases "srv w'")
    case (Inl e)
    with n(3) call have "state_of (category_step cfg srv category maxP st)
        = st\<lparr>world := w', consecutiveErrors := Suc (consecutiveErrors st)\<rparr>"
      by (simp add: category_step_def t_def [symmetric])
    with ns Inl n(1) show ?thesis
      unfolding follows_rule_def
      by (intro exI [of _ "replicate (Suc n) req"]) (simp add: delivers_page_def del: replicate_Suc)
  next
    case (Inr response)
    with n(3) call have "state_of (category_step cfg srv category maxP st)
        = state_of (on_response (retryAttempts cfg) maxP t t response (st\<lparr>world := w'\<rparr>))"
      by (simp add: category_step_def t_def [symmetric])
    with ns Inr n(1) show ?thesis
      unfolding follows_rule_def
      by (intro exI [of _ "replicate (Suc n) req"]) (simp add: on_response_skip del: replicate_Suc)
  qed
qed

lemma url_step_rule:
  "follows_rule srv st (state_of (url_step rt srv url maxP st))"
proof (cases "url_valid rt url")
  case False
  then show ?thesis
    unfolding follows_rule_def by (intro exI [of _ "[]"]) (simp add: url_step_def)
next
  case True
  define t where "t = the_enat (min (enat 50) (maxP - enat (length (allProducts st))))"
  define req where "req = UrlPage url (skip st) t"
  show ?thesis
  proof (cases "srv (world st @ [req])")
    case (Inl e)
    with True have "state_of (url_step rt srv url maxP st)
        = st\<lparr>world := world st @ [req], consecutiveErrors := Suc (consecutiveErrors st)\<rparr>"
      by (simp add: url_step_def t_def [symmetric] req_def makeApiRequest_def)
    with Inl show ?thesis
      unfolding follows_rule_def
      by (intro exI [of _ "[req]"]) (simp add: delivers_page_def req_def)
  next
    case (Inr response)
    with True have "state_of (url_step rt srv url maxP st)
        = state_of (on_response 3 maxP 50 t response (st\<lparr>world := world st @ [req]\<rparr>))"
      by (simp add: url_step_def t_def [symmetric] req_def makeApiRequest_def)
    with Inr show ?thesis
      unfolding follows_rule_def
      by (intro exI [of _ "[req]"]) (simp add: on_response_skip req_def)
  qed
qed

lemma next_skip_sorted:
  assumes "next_skip srv w s rs = Some s'"
  shows "sorted (s # skips rs @ [s'])"
  using assms
proof (induction rs arbitrary: w s)
  case Nil
  then show ?case by (simp add: skips_def)
next
  case (Cons r rs)
  then obtain t where r: "page_of r = Some (s, t)"
    by (auto split: option.splits if_splits)
  define s1 where "s1 = (if delivers_page (srv (w @ [r])) then s + t else s)"
  from Cons.prems r have "next_skip srv (w @ [r]) s1 rs = Some s'" by (simp add: s1_def)
  from Cons.IH [OF this] have "sorted (s1 # skips rs @ [s'])" .
  moreover have "s \<le> s1" by (simp add: s1_def)
  ultimately show ?case using r by (auto simp: skips_def)
qed

lemma loop_Continue:
  "loop_condition maxP maxR st \<Longrightarrow> body st = Continue st' \<Longrightarrow>
     pagination_loop body maxP maxR st = pagination_loop body maxP maxR st'"
  by (subst pagination_loop.simps) (simp add: loop_condition_def)

lemma loop_Break:
  "loop_condition maxP maxR st \<Longrightarrow> body st = Break st' \<Longrightarrow>
     pagination_loop body maxP maxR st = Some (None, st')"
  by (subst pagination_loop.simps) (simp add: loop_condition_def)

lemma loop_exit:
  "\<not> loop_condition maxP maxR st \<Longrightarrow> pagination_loop body maxP maxR st = Some (None, st)"
  by (subst pagination_loop.simps) (auto simp: loop_condition_def)

lemma category_step_Continue:
  assumes "category_step cfg srv category maxP st = Continue st'"
  shows "length (allProducts st) < length (allProducts st') \<and> enat (length (allProducts st')) < maxP
         \<or> allProducts st' = allProducts st \<and> consecutiveErrors st' = Suc (consecutiveErrors st)
             \<and> consecutiveErrors st' < retryAttempts cfg"
  using assms
  by (auto simp: category_step_def Let_def split: prod.splits sum.splits
           dest!: on_error_Continue on_response_Continue)

lemma url_step_Continue:
  assumes "url_step rt srv url maxP st = Continue st'"
  shows "length (allProducts st) < length (allProducts st') \<and> enat (length (allProducts st')) < maxP
         \<or> allProducts st' = allProducts st \<and> consecutiveErrors st' = Suc (consecutiveErrors st)
             \<and> consecutiveErrors st' < 3"
  using assms
  by (auto simp: url_step_def Let_def makeApiRequest_def split: prod.splits sum.splits if_splits
           dest!: on_error_Continue on_response_Continue)

lemma progress_measure:
  assumes "length (allProducts st) < length (allProducts st') \<and> enat (length (allProducts st')) < enat m
         \<or> allProducts st' = allProducts st \<and> consecutiveErrors st' = Suc (consecutiveErrors st)
             \<and> consecutiveErrors st' < maxR"
  shows "(st', st) \<in> measures [\<lambda>s. m - length (allProducts s), \<lambda>s. maxR - consecutiveErrors s]"
  using assms by auto

lemma paginateCategory_terminates:
  "\<exists>res. paginateCategory cfg srv category (enat m) w = Some res"
proof -
  let ?r = "measures [\<lambda>s. m - length (allProducts s), \<lambda>s. retryAttempts cfg - consecutiveErrors s]"
  have "(s', s) \<in> ?r" if "category_step cfg srv category (enat m) s = Continue s'" for s s'
    using category_step_Continue [OF that] by (rule progress_measure)
  then show ?thesis
    unfolding paginateCategory_def by (intro pagination_loop_terminates [where r = ?r]) auto
qed

lemma paginateUrl_terminates:
  "\<exists>res. paginateUrl rt srv url (enat m) w = Some res"
proof -
  let ?r = "measures [\<lambda>s. m - length (allProducts s), \<lambda>s. 3 - consecutiveErrors s]"
  have "(s', s) \<in> ?r" if "url_step rt srv url (enat m) s = Continue s'" for s s'
    using url_step_Continue [OF that] by (rule progress_measure)
  then show ?thesis
    unfolding paginateUrl_def by (intro pagination_loop_terminates [where r = ?r]) auto
qed

text \<open>
  C3, as the code has it. In every finished run of either entry point the requests issued
  are page requests whose skips follow the rule of \<open>next_skip\<close> from skip 0: after a
  request that delivered a non-empty page the next request carries that skip plus that
  take, so no skip value is left out; after a request that failed or delivered nothing
  usable the next request carries the same skip again. The skips therefore never
  decrease. With a finite \<open>maxProducts\<close> every run finishes.
\<close>

theorem skips_follow_rule:
  "(paginateCategory cfg srv category maxP w = Some (thrown, st) \<longrightarrow>
      (\<exists>rs. world st = w @ rs \<and> next_skip srv w 0 rs = Some (skip st) \<and> sorted (skips rs)))
   \<and> (paginateUrl rt srv url maxP w = Some (thrown, st) \<longrightarrow>
        (\<exists>rs. world st = w @ rs \<and> next_skip srv w 0 rs = Some (skip st) \<and> sorted (skips rs)))
   \<and> (maxP \<noteq> \<infinity> \<longrightarrow>
        (\<exists>res. paginateCategory cfg srv category maxP w = Some res)
        \<and> (\<exists>res. paginateUrl rt srv url maxP w = Some res))"
proof -
  have rule: "\<exists>rs. world st = w @ rs \<and> next_skip srv w 0 rs = Some (skip st) \<and> sorted (skips rs)"
    if "follows_rule srv (initial_state w) st"
  proof -
    from that obtain rs where rs: "world st = w @ rs" "next_skip srv w 0 rs = Some (skip st)"
      by (auto simp: follows_rule_def initial_state_def)
    from next_skip_sorted [OF rs(2)] have "sorted (skips rs)"
      by (simp add: sorted_append)
    with rs show ?thesis by blast
  qed
  have 1: "\<exists>rs. world st = w @ rs \<and> next_skip srv w 0 rs = Some (skip st) \<and> sorted (skips rs)"
    if run: "paginateCategory cfg srv category maxP w = Some (thrown, st)"
  proof -
    have "follows_rule srv (initial_state w) (snd (thrown, st))"
      by (rule pagination_loop_rel [OF run [unfolded paginateCategory_def]])
         (auto intro: follows_rule_refl follows_rule_trans category_step_rule)
    then show ?thesis by (simp add: rule)
  qed
  have 2: "\<exists>rs. world st = w @ rs \<and> next_skip srv w 0 rs = Some (skip st) \<and> sorted (skips rs)"
    if run: "paginateUrl rt srv url maxP w = Some (thrown, st)"
  proof -
    have "follows_rule srv (initial_state w) (snd (thrown, st))"
      by (rule pagination_loop_rel [OF run [unfolded paginateUrl_def]])
         (auto intro: follows_rule_refl follows_rule_trans url_step_rule)
    then show ?thesis by (simp add: rule)
  qed
  have 3: "(\<exists>res. paginateCategory cfg srv category maxP w = Some res)
        \<and> (\<exists>res. paginateUrl rt srv url maxP w = Some res)" if "maxP \<noteq> \<infinity>"
    using that paginateCategory_terminates paginateUrl_terminates by (cases maxP) auto
  from 1 2 3 show ?thesis by blast
qed

lemma url_run:
  "paginateUrl sample_runtime fails_once_server sample_url \<infinity> []
     = Some (None, \<lparr>allProducts = [Obj [(''id'', Num 1)]], skip = 50, hasMore = False,
                     consecutiveErrors = 0,
                     world = [UrlPage sample_url 0 50, UrlPage sample_url 0 50]\<rparr>)"
proof -
  let ?body = "url_step sample_runtime fails_once_server sample_url \<infinity>"
  let ?st1 = "\<lparr>allProducts = [], skip = 0, hasMore = True, consecutiveErrors = Suc 0,
                 world = [UrlPage sample_url 0 50]\<rparr>"
  let ?st2 = "\<lparr>allProducts = [Obj [(''id'', Num 1)]], skip = 50, hasMore = False,
                 consecutiveErrors = 0,
                 world = [UrlPage sample_url 0 50, UrlPage sample_url 0 50]\<rparr>"
  have 1: "?body (initial_state []) = Continue ?st1"
    by (simp add: url_step_def sample_runtime_def initial_state_def makeApiRequest_def
          fails_once_server_def on_error_def message_of_thrown_def)
  have 2: "?body ?st1 = Continue ?st2"
    by (simp add: url_step_def sample_runtime_def makeApiRequest_def fails_once_server_def
          on_response_def)
  have "paginateUrl sample_runtime fails_once_server sample_url \<infinity> []
          = pagination_loop ?body \<infinity> 3 ?st1"
    unfolding paginateUrl_def by (rule loop_Continue [where body = "?body", OF _ 1]) (simp add: loop_condition_def initial_state_def)
  also have "\<dots> = pagination_loop ?body \<infinity> 3 ?st2"
    by (rule loop_Continue [where body = "?body", OF _ 2]) (simp add: loop_condition_def)
  also have "\<dots> = Some (None, ?st2)"
    by (rule loop_exit) (simp add: loop_condition_def)
  finally show ?thesis .
qed

lemma category_run:
  "paginateCategory default_config fails_once_server ''Battery'' \<infinity> []
     = Some (None, \<lparr>allProducts = [Obj [(''id'', Num 1)]], skip = 500, hasMore = False,
                     consecutiveErrors = 0,
                     world = [SearchResults ''Battery'' 0 500, SearchResults ''Battery'' 0 500]\<rparr>)"
proof -
  let ?body = "category_step default_config fails_once_server ''Battery'' \<infinity>"
  let ?st1 = "\<lparr>allProducts = [Obj [(''id'', Num 1)]], skip = 500, hasMore = False,
                 consecutiveErrors = 0,
                 world = [SearchResults ''Battery'' 0 500, SearchResults ''Battery'' 0 500]\<rparr>"
  have bs: "batchSize default_config = 500" and ra: "retryAttempts default_config = 3"
    by (simp_all add: default_config_def)
  have call: "getSearchResults default_config fails_once_server ''Battery'' 0 500 []
                = (Inr (Obj [(''data'', Arr [Obj [(''id'', Num 1)]])]),
                   [SearchResults ''Battery'' 0 500, SearchResults ''Battery'' 0 500])"
    by (simp add: getSearchResults_def retried_def retry_def ra
          retry_loop_errors [of _ _ 0] retry_loop_errors [of _ _ "Suc 0"] makeApiRequest_def fails_once_server_def)
  have 1: "?body (initial_state []) = Continue ?st1"
    by (simp add: category_step_def initial_state_def bs ra call on_response_def)
  have "paginateCategory default_config fails_once_server ''Battery'' \<infinity> []
          = pagination_loop ?body \<infinity> (retryAttempts default_config) ?st1"
    unfolding paginateCategory_def
    by (rule loop_Continue [where body = "?body", OF _ 1]) (simp add: loop_condition_def initial_state_def ra)
  also have "\<dots> = Some (None, ?st1)"
    by (rule loop_exit) (simp add: loop_condition_def)
  finally show ?thesis .
qed

text \<open>
  A request that fails is issued again with the same skip: by the controller itself in
  the URL-driven loop, by the retry wrapper of \<open>getSearchResults\<close> in the category-driven
  one. Here the server fails the first request and then delivers one product.
\<close>

theorem repeated_skip_counterexample:
  "issued_skips (paginateUrl sample_runtime fails_once_server sample_url \<infinity> []) = Some [0, 0]
   \<and> issued_skips (paginateCategory default_config fails_once_server ''Battery'' \<infinity> []) = Some [0, 0]"
  by (simp add: url_run category_run issued_skips_def skips_def)

theorem skips_follow_rule_witness:
  "paginateUrl sample_runtime fails_once_server sample_url \<infinity> []
     = Some (None, \<lparr>allProducts = [Obj [(''id'', Num 1)]], skip = 50, hasMore = False,
                     consecutiveErrors = 0,
                     world = [UrlPage sample_url 0 50, UrlPage sample_url 0 50]\<rparr>)
   \<and> next_skip fails_once_server [] 0 [UrlPage sample_url 0 50, UrlPage sample_url 0 50] = Some 50"
  using skips_follow_rule
          [of default_config fails_once_server "''Battery''" \<infinity> "[]" None
              "\<lparr>allProducts = [Obj [(''id'', Num 1)]], skip = 50, hasMore = False,
                consecutiveErrors = 0,
                world = [UrlPage sample_url 0 50, UrlPage sample_url 0 50]\<rparr>"
              sample_runtime sample_url]
        url_run
  by simp

lemma take_50:
  assumes "enat 150 \<le> maxP" and "n \<le> 100"
  shows "the_enat (min (enat 50) (maxP - enat n)) = 50"
  using assms by (cases maxP) (auto simp: min_def)

lemma below_150:
  assumes "enat 150 \<le> maxP" and "n < 150"
  shows "\<not> maxP \<le> enat n" and "enat n < maxP"
  using assms by (cases maxP; auto)+

lemma url_step_plain:
  assumes "url_valid rt url" and "srv (world st @ [UrlPage url (skip st) t]) = Inr response"
    and "plain_page response products" and "products \<noteq> []"
    and "the_enat (min (enat 50) (maxP - enat (length (allProducts st)))) = t"
    and "\<not> maxP \<le> enat (length (allProducts st) + length products)"
  shows "url_step rt srv url maxP st =
           Continue (st\<lparr>consecutiveErrors := 0, allProducts := allProducts st @ products,
                        hasMore := (length products = t), skip := skip st + t,
                        world := world st @ [UrlPage url (skip st) t]\<rparr>)"
  using assms by (simp add: url_step_def makeApiRequest_def on_response_plain Let_def)

lemma category_step_plain:
  assumes "srv (world st @ [SearchResults category (skip st) t]) = Inr response"
    and "plain_page response products" and "products \<noteq> []"
    and "the_enat (min (enat (batchSize cfg)) (maxP - enat (length (allProducts st)))) = t"
    and "\<not> maxP \<le> enat (length (allProducts st) + length products)"
  shows "category_step cfg srv category maxP st =
           Continue (st\<lparr>consecutiveErrors := 0, allProducts := allProducts st @ products,
                        hasMore := (length products = t), skip := skip st + t,
                        world := world st @ [SearchResults category (skip st) t]\<rparr>)"
proof -
  have "getSearchResults cfg srv category (skip st) t (world st)
          = (Inr response, world st @ [SearchResults category (skip st) t])"
    using assms(1) by (simp add: getSearchResults_def retried_first_success makeApiRequest_def)
  with assms show ?thesis
    by (simp add: category_step_def on_response_plain Let_def)
qed

lemma serves_Cons:
  "serves srv w ((req, products) # rest) \<Longrightarrow>
     (\<exists>response. srv (w @ [req]) = Inr response \<and> plain_page response products)
       \<and> serves srv (w @ [req]) rest"
  by (auto split: sum.splits)

lemma url_scenario:
  assumes valid: "url_valid rt url" and big: "enat 150 \<le> maxP"
    and srv: "serves srv w [(UrlPage url 0 50, ps1), (UrlPage url 50 50, ps2), (UrlPage url 100 50, ps3)]"
    and len: "length ps1 = 50" "length ps2 = 50" "length ps3 = 12"
  shows "paginateUrl rt srv url maxP w =
           Some (None, \<lparr>allProducts = ps1 @ ps2 @ ps3, skip = 150, hasMore = False,
                         consecutiveErrors = 0,
                         world = w @ [UrlPage url 0 50, UrlPage url 50 50, UrlPage url 100 50]\<rparr>)"
proof -
  let ?body = "url_step rt srv url maxP"
  let ?st1 = "\<lparr>allProducts = ps1, skip = 50, hasMore = True, consecutiveErrors = 0,
                 world = w @ [UrlPage url 0 50]\<rparr>"
  let ?st2 = "\<lparr>allProducts = ps1 @ ps2, skip = 100, hasMore = True, consecutiveErrors = 0,
                 world = w @ [UrlPage url 0 50, UrlPage url 50 50]\<rparr>"
  let ?st3 = "\<lparr>allProducts = ps1 @ ps2 @ ps3, skip = 150, hasMore = False, consecutiveErrors = 0,
                 world = w @ [UrlPage url 0 50, UrlPage url 50 50, UrlPage url 100 50]\<rparr>"
  from serves_Cons [OF srv] obtain r1 where r1: "srv (w @ [UrlPage url 0 50]) = Inr r1"
      "plain_page r1 ps1" and srv2: "serves srv (w @ [UrlPage url 0 50]) [(UrlPage url 50 50, ps2), (UrlPage url 100 50, ps3)]"
    by blast
  from serves_Cons [OF srv2] obtain r2 where r2: "srv (w @ [UrlPage url 0 50, UrlPage url 50 50]) = Inr r2"
      "plain_page r2 ps2" and srv3: "serves srv (w @ [UrlPage url 0 50, UrlPage url 50 50]) [(UrlPage url 100 50, ps3)]"
    by auto
  from serves_Cons [OF srv3] obtain r3 where r3: "srv (w @ [UrlPage url 0 50, UrlPage url 50 50, UrlPage url 100 50]) = Inr r3"
      "plain_page r3 ps3"
    by auto
  from len have ne: "ps1 \<noteq> []" "ps2 \<noteq> []" "ps3 \<noteq> []" by auto
  have 1: "?body (initial_state w) = Continue ?st1"
    using url_step_plain [of rt url srv "initial_state w" 50 r1 ps1 maxP] valid r1 ne len
      take_50 [OF big, of 0] below_150 [OF big, of 50]
    by (simp add: initial_state_def)
  have 2: "?body ?st1 = Continue ?st2"
    using url_step_plain [of rt url srv ?st1 50 r2 ps2 maxP] valid r2 ne len
      take_50 [OF big, of 50] below_150 [OF big, of 100]
    by simp
  have 3: "?body ?st2 = Continue ?st3"
    using url_step_plain [of rt url srv ?st2 50 r3 ps3 maxP] valid r3 ne len
      take_50 [OF big, of 100] below_150 [OF big, of 112]
    by simp
  have "paginateUrl rt srv url maxP w = pagination_loop ?body maxP 3 ?st1"
    unfolding paginateUrl_def
    by (rule loop_Continue [where body = "?body", OF _ 1])
       (simp add: loop_condition_def initial_state_def below_150 [OF big])
  also have "\<dots> = pagination_loop ?body maxP 3 ?st2"
    by (rule loop_Continue [where body = "?body", OF _ 2])
       (simp add: loop_condition_def len below_150 [OF big])
  also have "\<dots> = pagination_loop ?body maxP 3 ?st3"
    by (rule loop_Continue [where body = "?body", OF _ 3])
       (simp add: loop_condition_def len below_150 [OF big])
  also have "\<dots> = Some (None, ?st3)"
    by (rule loop_exit) (simp add: loop_condition_def)
  finally show ?thesis .
qed

lemma category_scenario:
  assumes bs: "batchSize cfg = 50" and ra: "0 < retryAttempts cfg" and big: "enat 150 \<le> maxP"
    and srv: "serves srv w [(SearchResults c 0 50, ps1), (SearchResults c 50 50, ps2),
                            (SearchResults c 100 50, ps3)]"
    and len: "length ps1 = 50" "length ps2 = 50" "length ps3 = 12"
  shows "paginateCategory cfg srv c maxP w =
           Some (None, \<lparr>allProducts = ps1 @ ps2 @ ps3, skip = 150, hasMore = False,
                         consecutiveErrors = 0,
                         world = w @ [SearchResults c 0 50, SearchResults c 50 50,
                                      SearchResults c 100 50]\<rparr>)"
proof -
  let ?body = "category_step cfg srv c maxP"
  let ?st1 = "\<lparr>allProducts = ps1, skip = 50, hasMore = True, consecutiveErrors = 0,
                 world = w @ [SearchResults c 0 50]\<rparr>"
  let ?st2 = "\<lparr>allProducts = ps1 @ ps2, skip = 100, hasMore = True, consecutiveErrors = 0,
                 world = w @ [SearchResults c 0 50, SearchResults c 50 50]\<rparr>"
  let ?st3 = "\<lparr>allProducts = ps1 @ ps2 @ ps3, skip = 150, hasMore = False, consecutiveErrors = 0,
                 world = w @ [SearchResults c 0 50, SearchResults c 50 50, SearchResults c 100 50]\<rparr>"
  from serves_Cons [OF srv] obtain r1 where r1: "srv (w @ [SearchResults c 0 50]) = Inr r1"
      "plain_page r1 ps1" and srv2: "serves srv (w @ [SearchResults c 0 50]) [(SearchResults c 50 50, ps2), (SearchResults c 100 50, ps3)]"
    by blast
  from serves_Cons [OF srv2] obtain r2 where r2: "srv (w @ [SearchResults c 0 50, SearchResults c 50 50]) = Inr r2"
      "plain_page r2 ps2" and srv3: "serves srv (w @ [SearchResults c 0 50, SearchResults c 50 50]) [(SearchResults c 100 50, ps3)]"
    by auto
  from serves_Cons [OF srv3] obtain r3 where r3: "srv (w @ [SearchResults c 0 50, SearchResults c 50 50, SearchResults c 100 50]) = Inr r3"
      "plain_page r3 ps3"
    by auto
  from len have ne: "ps1 \<noteq> []" "ps2 \<noteq> []" "ps3 \<noteq> []" by auto
  have 1: "?body (initial_state w) = Continue ?st1"
    using category_step_plain [of srv "initial_state w" c 50 r1 ps1 cfg maxP] r1 ne len
      take_50 [OF big, of 0] below_150 [OF big, of 50]
    by (simp add: initial_state_def bs)
  have 2: "?body ?st1 = Continue ?st2"
    using category_step_plain [of srv ?st1 c 50 r2 ps2 cfg maxP] r2 ne len
      take_50 [OF big, of 50] below_150 [OF big, of 100]
    by (simp add: bs)
  have 3: "?body ?st2 = Continue ?st3"
    using category_step_plain [of srv ?st2 c 50 r3 ps3 cfg maxP] r3 ne len
      take_50 [OF big, of 100] below_150 [OF big, of 112]
    by (simp add: bs)
  have "paginateCategory cfg srv c maxP w = pagination_loop ?body maxP (retryAttempts cfg) ?st1"
    unfolding paginateCategory_def
    by (rule loop_Continue [where body = "?body", OF _ 1])
       (simp add: loop_condition_def initial_state_def below_150 [OF big] ra)
  also have "\<dots> = pagination_loop ?body maxP (retryAttempts cfg) ?st2"
    by (rule loop_Continue [where body = "?body", OF _ 2])
       (simp add: loop_condition_def len below_150 [OF big] ra)
  also have "\<dots> = pagination_loop ?body maxP (retryAttempts cfg) ?st3"
    by (rule loop_Continue [where body = "?body", OF _ 3])
       (simp add: loop_condition_def len below_150 [OF big] ra)
  also have "\<dots> = Some (None, ?st3)"
    by (rule loop_exit) (simp add: loop_condition_def)
  finally show ?thesis .
qed

text \<open>
  C4. After a non-empty page without a total count, \<open>hasMore\<close> is decided by comparing the
  number of returned products with the take that was requested. Three such pages of 50,
  50 and 12 products, each requested with a take of 50 (the URL-driven loop always asks
  for 50 when at least 150 products are still wanted; the category-driven loop does when
  \<open>batchSize\<close> is 50), end the run with \<open>hasMore = false\<close> and 112 collected products.
\<close>

theorem heuristic_pages_50_50_12:
  "(plain_page response products \<and> products \<noteq> [] \<longrightarrow>
      hasMore (state_of (on_response maxR maxP totalTake requested response st))
        = (length products = requested))
   \<and> (url_valid rt url \<and> enat 150 \<le> maxP
        \<and> serves srv w [(UrlPage url 0 50, pa), (UrlPage url 50 50, pb), (UrlPage url 100 50, pc)]
        \<and> length pa = 50 \<and> length pb = 50 \<and> length pc = 12 \<longrightarrow>
      run_summary (paginateUrl rt srv url maxP w) = Some (False, 112)
      \<and> paginateUrl rt srv url maxP w =
          Some (None, \<lparr>allProducts = pa @ pb @ pc, skip = 150, hasMore = False,
                        consecutiveErrors = 0,
                        world = w @ [UrlPage url 0 50, UrlPage url 50 50, UrlPage url 100 50]\<rparr>))
   \<and> (batchSize cfg = 50 \<and> 0 < retryAttempts cfg \<and> enat 150 \<le> maxP
        \<and> serves srv w [(SearchResults c 0 50, pa), (SearchResults c 50 50, pb),
                         (SearchResults c 100 50, pc)]
        \<and> length pa = 50 \<and> length pb = 50 \<and> length pc = 12 \<longrightarrow>
      run_summary (paginateCategory cfg srv c maxP w) = Some (False, 112)
      \<and> paginateCategory cfg srv c maxP w =
          Some (None, \<lparr>allProducts = pa @ pb @ pc, skip = 150, hasMore = False,
                        consecutiveErrors = 0,
                        world = w @ [SearchResults c 0 50, SearchResults c 50 50,
                                     SearchResults c 100 50]\<rparr>))"
proof -
  have 1: "hasMore (state_of (on_response maxR maxP totalTake requested response st))
             = (length products = requested)"
    if "plain_page response products \<and> products \<noteq> []"
    using that on_response_plain [of response products maxR maxP totalTake requested st]
    by (auto simp: Let_def)
  have 2: "run_summary (paginateUrl rt srv url maxP w) = Some (False, 112)
      \<and> paginateUrl rt srv url maxP w =
          Some (None, \<lparr>allProducts = pa @ pb @ pc, skip = 150, hasMore = False,
                        consecutiveErrors = 0,
                        world = w @ [UrlPage url 0 50, UrlPage url 50 50, UrlPage url 100 50]\<rparr>)"
    if "url_valid rt url \<and> enat 150 \<le> maxP
        \<and> serves srv w [(UrlPage url 0 50, pa), (UrlPage url 50 50, pb), (UrlPage url 100 50, pc)]
        \<and> length pa = 50 \<and> length pb = 50 \<and> length pc = 12"
    using that url_scenario [of rt url maxP srv w pa pb pc] by (simp add: run_summary_def)
  have 3: "run_summary (paginateCategory cfg srv c maxP w) = Some (False, 112)
      \<and> paginateCategory cfg srv c maxP w =
          Some (None, \<lparr>allProducts = pa @ pb @ pc, skip = 150, hasMore = False,
                        consecutiveErrors = 0,
                        world = w @ [SearchResults c 0 50, SearchResults c 50 50,
                                     SearchResults c 100 50]\<rparr>)"
    if "batchSize cfg = 50 \<and> 0 < retryAttempts cfg \<and> enat 150 \<le> maxP
        \<and> serves srv w [(SearchResults c 0 50, pa), (SearchResults c 50 50, pb),
                         (SearchResults c 100 50, pc)]
        \<and> length pa = 50 \<and> length pb = 50 \<and> length pc = 12"
    using that category_scenario [of cfg maxP srv w c pa pb pc] by (simp add: run_summary_def)
  from 1 2 3 show ?thesis by blast
qed

theorem heuristic_pages_50_50_12_witness:
  "run_summary (paginateUrl sample_runtime three_pages_server sample_url \<infinity> []) = Some (False, 112)
   \<and> run_summary (paginateCategory (default_config\<lparr>batchSize := 50\<rparr>) three_pages_server
                    ''Battery'' \<infinity> []) = Some (False, 112)"
proof -
  let ?p = "Obj [(''id'', Num 1)]"
  note inst =
    heuristic_pages_50_50_12
      [where rt = sample_runtime and url = sample_url and maxP = \<infinity>
         and srv = three_pages_server and w = "[]"
         and pa = "replicate 50 ?p" and pb = "replicate 50 ?p" and pc = "replicate 12 ?p"
         and cfg = "default_config\<lparr>batchSize := 50\<rparr>" and c = "''Battery''"
         and response = "page_response 12" and products = "replicate 12 ?p"
         and maxR = 3 and totalTake = 50 and requested = 50
         and st = "initial_state []"]
  have page: "plain_page (page_response n) (replicate n ?p)" for n
    by (simp add: plain_page_def page_response_def)
  have url: "url_valid sample_runtime sample_url \<and> enat 150 \<le> \<infinity>
        \<and> serves three_pages_server []
              [(UrlPage sample_url 0 50, replicate 50 ?p), (UrlPage sample_url 50 50, replicate 50 ?p),
               (UrlPage sample_url 100 50, replicate 12 ?p)]
        \<and> length (replicate 50 ?p) = 50 \<and> length (replicate 50 ?p) = 50
        \<and> length (replicate 12 ?p) = 12"
    by (simp add: sample_runtime_def three_pages_server_def page)
  have category: "batchSize (default_config\<lparr>batchSize := 50\<rparr>) = 50
        \<and> 0 < retryAttempts (default_config\<lparr>batchSize := 50\<rparr>) \<and> enat 150 \<le> \<infinity>
        \<and> serves three_pages_server []
              [(SearchResults ''Battery'' 0 50, replicate 50 ?p),
               (SearchResults ''Battery'' 50 50, replicate 50 ?p),
               (SearchResults ''Battery'' 100 50, replicate 12 ?p)]
        \<and> length (replicate 50 ?p) = 50 \<and> length (replicate 50 ?p) = 50
        \<and> length (replicate 12 ?p) = 12"
    by (simp add: default_config_def three_pages_server_def page)
  from inst [THEN conjunct2, THEN conjunct1, THEN mp, OF url]
       inst [THEN conjunct2, THEN conjunct2, THEN mp, OF category]
  show ?thesis by blast
qed


section \<open>Properties of the orchestrator\<close>

lemma getCategoryCounts_defined:
  "getCategoryCounts cfg srv category w \<noteq> (Inl None, w')"
  by (simp add: getCategoryCounts_def retried_not_undefined)

lemma initialize_returns: "\<exists>w0. initialize cfg srv w = (Inr (), w0)"
proof -
  have "retried (searchProbe cfg srv) 3 w1 \<noteq> (Inl None, w2)" for w1 w2
    by (simp add: retried_not_undefined)
  then show ?thesis
    using getCategoryCounts_defined [of cfg srv testCategory w]
    by (auto simp: initialize_def initializeApi_def message_of_thrown_def bind_err_def
             split: prod.splits sum.splits option.splits)
qed

lemma enat_0_le [simp]: "enat 0 \<le> maxP"
  by (simp add: zero_enat_def [symmetric])

lemma trim_to_bound: "enat (length (trim_to maxP products)) \<le> maxP"
  by (cases maxP) (auto simp: trim_to_def)

lemma fetchProductsByCategory_bound:
  assumes "fetchProductsByCategory cfg srv category maxP w = Some (Inr products, w')"
  shows "enat (length products) \<le> maxP"
  using assms
  by (auto simp: fetchProductsByCategory_def bind_err_def trim_to_bound
           split: prod.splits sum.splits option.splits)

lemma fetchProductsByUrl_bound:
  assumes "fetchProductsByUrl rt srv url maxP w = Some (Inr products, w')"
  shows "enat (length products) \<le> maxP"
  using assms
  by (auto simp: fetchProductsByUrl_def trim_to_bound split: prod.splits option.splits if_splits)

lemma fetch_input_bound:
  assumes "fetch_input rt cfg srv input maxP w = Some (Inr products, w')"
  shows "enat (length products) \<le> maxP"
  using assms fetchProductsByCategory_bound fetchProductsByUrl_bound
  by (auto simp: fetch_input_def split: if_splits)

lemma fetchProductsByCategory_no_throw:
  "fetchProductsByCategory cfg srv category maxP w \<noteq> Some (Inl error, w')"
  using getCategoryCounts_defined [of cfg srv category w]
  by (auto simp: fetchProductsByCategory_def bind_err_def message_of_thrown_def
           split: prod.splits sum.splits option.splits)

lemma fetchProductsByUrl_no_throw:
  "url \<noteq> [] \<Longrightarrow> fetchProductsByUrl rt srv url maxP w \<noteq> Some (Inl error, w')"
  by (auto simp: fetchProductsByUrl_def split: prod.splits option.splits)

lemma fetch_input_no_throw:
  "fetch_input rt cfg srv input maxP w \<noteq> Some (Inl error, w')"
  using fetchProductsByCategory_no_throw fetchProductsByUrl_no_throw [of input]
  by (cases "input = []") (auto simp: fetch_input_def)

lemma fetchProductDetails_length:
  assumes "fetchProductDetails cfg srv products w = Some (r, w')"
  shows "\<exists>out. r = Inr out \<and> length out = length products"
proof -
  obtain out w'' where e: "enrichGroup cfg srv products w = (Inr out, w'')"
      "list_all2 enriched products out"
    using enrichGroup_enriched by blast
  from fetchProductDetails_returns [OF assms] e show ?thesis
    by (auto dest: list_all2_lengthD)
qed

lemma budget_add:
  assumes "enat a \<le> maxP - enat len" and "\<not> maxP - enat len \<le> 0"
  shows "enat (len + a) \<le> maxP"
proof (cases maxP)
  case (enat m)
  with assms have "a \<le> m - len" and "m - len \<noteq> 0"
    by (auto simp: zero_enat_def)
  then have "len + a \<le> m" by arith
  with enat show ?thesis by simp
qed simp

lemma scrape_inputs_bound:
  assumes fetch: "\<And>input r w ps w'. fetch input r w = Some (Inr ps, w') \<Longrightarrow> enat (length ps) \<le> r"
    and "scrape_inputs fetch cfg srv opts inputs collected w = Some (Inr out, w')"
    and "enat (length collected) \<le> maxProducts opts"
  shows "enat (length out) \<le> maxProducts opts"
  using assms(2,3)
proof (induction inputs arbitrary: collected w)
  case Nil
  then show ?case by simp
next
  case (Cons input inputs)
  let ?remaining = "maxProducts opts - enat (length collected)"
  show ?case
  proof (cases "?remaining \<le> 0")
    case True
    with Cons.prems show ?thesis by simp
  next
    case False
    with Cons.prems(1) obtain products w1 where f: "fetch input ?remaining w = Some (Inr products, w1)"
      by (auto simp: Let_def split: option.splits prod.splits sum.splits)
    from fetch [OF f] have pb: "enat (length products) \<le> ?remaining" .
    show ?thesis
    proof (cases "products = []")
      case True
      with Cons.prems(1) False f
      have "scrape_inputs fetch cfg srv opts inputs collected w1 = Some (Inr out, w')"
        by (simp add: Let_def)
      from Cons.IH [OF this Cons.prems(2)] show ?thesis .
    next
      case ne: False
      show ?thesis
      proof (cases "fetchDetails opts")
        case True
        with Cons.prems(1) False f ne obtain r w2 where
          d: "fetchProductDetails cfg srv products w1 = Some (r, w2)"
          by (auto simp: Let_def split: option.splits)
        from fetchProductDetails_length [OF d] obtain pwd where
          pwd: "r = Inr pwd" "length pwd = length products" by blast
        with Cons.prems(1) False f ne True d
        have run: "scrape_inputs fetch cfg srv opts inputs (collected @ pwd) w2 = Some (Inr out, w')"
          by (simp add: Let_def)
        have "enat (length (collected @ pwd)) \<le> maxProducts opts"
          using budget_add [OF pb False] pwd by simp
        from Cons.IH [OF run this] show ?thesis .
      next
        case nd: False
        with Cons.prems(1) False f ne
        have run: "scrape_inputs fetch cfg srv opts inputs (collected @ products) w1 = Some (Inr out, w')"
          by (simp add: Let_def)
        have "enat (length (collected @ products)) \<le> maxProducts opts"
          using budget_add [OF pb False] by simp
        from Cons.IH [OF run this] show ?thesis .
      qed
    qed
  qed
qed

lemma mapProducts_length: "length (mapProducts rt products) \<le> length products"
  by (simp add: mapProducts_def)

lemma scrape_bound:
  assumes "scrape rt cfg srv inputs opts w = Some (Inr records, w')"
  shows "enat (length records) \<le> maxProducts opts"
proof (cases "inputs = []")
  case True
  with assms show ?thesis by (simp add: scrape_def zero_enat_def [symmetric])
next
  case False
  obtain w0 where init: "initialize cfg srv w = (Inr (), w0)"
    using initialize_returns by blast
  let ?run = "if usePresetUrls opts \<and> categoryUrls cfg \<noteq> []
              then scrape_inputs (fetchProductsByUrl rt srv) cfg srv opts (categoryUrls cfg) [] w0
              else scrape_inputs (fetch_input rt cfg srv) cfg srv opts inputs [] w0"
  from assms False init obtain collected where
    run: "?run = Some (Inr collected, w')" and rec: "records = mapProducts rt collected"
    by (auto simp: scrape_def map_collected_def split: option.splits prod.splits sum.splits)
  have "enat (length collected) \<le> maxProducts opts"
  proof (cases "usePresetUrls opts \<and> categoryUrls cfg \<noteq> []")
    case True
    with run show ?thesis
      using scrape_inputs_bound [of "fetchProductsByUrl rt srv" cfg srv opts "categoryUrls cfg" "[]" w0 collected w']
        fetchProductsByUrl_bound
      by (simp add: zero_enat_def [symmetric])
  next
    case False
    with run show ?thesis
      using scrape_inputs_bound [of "fetch_input rt cfg srv" cfg srv opts inputs "[]" w0 collected w']
        fetch_input_bound
      by (auto simp: zero_enat_def [symmetric])
  qed
  moreover have "enat (length records) \<le> enat (length collected)"
    using rec mapProducts_length by simp
  ultimately show ?thesis by (rule order_trans [rotated])
qed

lemma scrape_inputs_no_throw:
  assumes "\<And>input r w error w'. input \<in> set inputs \<Longrightarrow> fetch input r w \<noteq> Some (Inl error, w')"
  shows "scrape_inputs fetch cfg srv opts inputs collected w \<noteq> Some (Inl error, w')"
  using assms
proof (induction inputs arbitrary: collected w)
  case Nil
  then show ?case by simp
next
  case (Cons input inputs)
  have rest: "scrape_inputs fetch cfg srv opts inputs c w1 \<noteq> Some (Inl error, w')" for c w1
    by (rule Cons.IH) (simp add: Cons.prems)
  have first: "fetch input r w \<noteq> Some (Inl e, w1)" for r e w1
    by (rule Cons.prems) simp
  have details: "fetchProductDetails cfg srv ps w1 \<noteq> Some (Inl e, w2)" for ps w1 e w2
    using fetchProductDetails_length [of cfg srv ps w1 "Inl e" w2] by auto
  show ?case
    using rest first details
    by (auto simp: Let_def split: option.splits prod.splits sum.splits)
qed

lemma scrape_inputs_terminates:
  assumes fetch: "\<And>input m w. \<exists>r. fetch input (enat m) w = Some r"
    and finite: "maxProducts opts = enat M"
    and details: "fetchDetails opts \<longrightarrow> 0 < parallelRequests cfg"
  shows "\<exists>r. scrape_inputs fetch cfg srv opts inputs collected w = Some r"
proof (induction inputs arbitrary: collected w)
  case Nil
  then show ?case by simp
next
  case (Cons input inputs)
  have rem: "maxProducts opts - enat (length collected) = enat (M - length collected)"
    by (simp add: finite)
  obtain r where r: "fetch input (enat (M - length collected)) w = Some r"
    using fetch by blast
  have d: "fetchDetails opts \<Longrightarrow> fetchProductDetails cfg srv ps w1 = Some (enrichGroup cfg srv ps w1)"
    for ps w1 using details by (simp add: fetchProductDetails_positive)
  show ?case
    using Cons.IH r d
    by (auto simp: Let_def rem split: option.splits prod.splits sum.splits)
qed

lemma fetchProductsByCategory_terminates:
  "\<exists>r. fetchProductsByCategory cfg srv category (enat m) w = Some r"
  using paginateCategory_terminates [of cfg srv category m]
  by (auto simp: fetchProductsByCategory_def split: option.splits prod.splits sum.splits)
     (metis option.distinct(1))

lemma fetchProductsByUrl_terminates:
  "\<exists>r. fetchProductsByUrl rt srv url (enat m) w = Some r"
  using paginateUrl_terminates [of rt srv url m w]
  by (auto simp: fetchProductsByUrl_def split: option.splits prod.splits)

lemma fetch_input_terminates:
  "\<exists>r. fetch_input rt cfg srv input (enat m) w = Some r"
  using fetchProductsByCategory_terminates fetchProductsByUrl_terminates
  by (simp add: fetch_input_def)

lemma scrape_no_throw:
  assumes "usePresetUrls opts \<longrightarrow> [] \<notin> set (categoryUrls cfg)"
  shows "scrape rt cfg srv inputs opts w \<noteq> Some (Inl error, w')"
proof -
  obtain w0 where init: "initialize cfg srv w = (Inr (), w0)"
    using initialize_returns by blast
  have 1: "scrape_inputs (fetch_input rt cfg srv) cfg srv opts inputs [] w0 \<noteq> Some (Inl error, w')"
    by (rule scrape_inputs_no_throw) (rule fetch_input_no_throw)
  have 2: "scrape_inputs (fetchProductsByUrl rt srv) cfg srv opts (categoryUrls cfg) [] w0
             \<noteq> Some (Inl error, w')" if "usePresetUrls opts"
  proof (rule scrape_inputs_no_throw)
    fix input r w e w'
    assume "input \<in> set (categoryUrls cfg)"
    with assms that have "input \<noteq> []" by auto
    then show "fetchProductsByUrl rt srv input r w \<noteq> Some (Inl e, w')"
      by (rule fetchProductsByUrl_no_throw)
  qed
  from init 1 2 show ?thesis
    by (auto simp: scrape_def map_collected_def split: option.splits prod.splits sum.splits)
qed

lemma scrape_terminates:
  assumes "maxProducts opts \<noteq> \<infinity>" and "fetchDetails opts \<longrightarrow> 0 < parallelRequests cfg"
  shows "\<exists>r. scrape rt cfg srv inputs opts w = Some r"
proof -
  from assms(1) obtain M where M: "maxProducts opts = enat M" by (cases "maxProducts opts") auto
  obtain w0 where init: "initialize cfg srv w = (Inr (), w0)"
    using initialize_returns by blast
  have "\<exists>r. scrape_inputs (fetch_input rt cfg srv) cfg srv opts inputs [] w0 = Some r"
    by (rule scrape_inputs_terminates [where M = M])
       (rule fetch_input_terminates, rule M, rule assms(2))
  then obtain r1 where 1: "scrape_inputs (fetch_input rt cfg srv) cfg srv opts inputs [] w0 = Some r1"
    by blast
  have "\<exists>r. scrape_inputs (fetchProductsByUrl rt srv) cfg srv opts (categoryUrls cfg) [] w0 = Some r"
    by (rule scrape_inputs_terminates [where M = M])
       (rule fetchProductsByUrl_terminates, rule M, rule assms(2))
  then obtain r2 where 2: "scrape_inputs (fetchProductsByUrl rt srv) cfg srv opts (categoryUrls cfg) [] w0 = Some r2"
    by blast
  from init 1 2 show ?thesis
    by (auto simp: scrape_def map_collected_def split: option.splits prod.splits sum.splits)
qed

lemma category_step_exhausted:
  assumes "always_fails srv category"
  shows "\<exists>w' e. category_step cfg srv category maxP st
           = on_error (retryAttempts cfg) (Some e) (st\<lparr>world := w'\<rparr>)"
proof -
  define t where "t = the_enat (min (enat (batchSize cfg)) (maxP - enat (length (allProducts st))))"
  define req where "req = SearchResults category (skip st) t"
  obtain res w' where call: "getSearchResults cfg srv category (skip st) t (world st) = (res, w')"
    by (cases "getSearchResults cfg srv category (skip st) t (world st)")
  then obtain n where n: "w' = world st @ replicate (Suc n) req"
      "res = (case srv w' of Inl e \<Rightarrow> Inl (Some e) | Inr v \<Rightarrow> Inr v)"
    using retried_requests [of srv req "retryAttempts cfg" "world st" res w']
    by (auto simp: getSearchResults_def req_def)
  have "w' = (world st @ replicate n req) @ [req]"
    using n(1) by (simp add: replicate_append_same)
  moreover from assms have "isl (srv ((world st @ replicate n req) @ [req]))"
    unfolding always_fails_def req_def by blast
  ultimately have "isl (srv w')" by simp
  then obtain e where "srv w' = Inl e" by (cases "srv w'") auto
  with n(2) call show ?thesis
    by (auto simp: category_step_def t_def [symmetric])
qed

lemma url_step_exhausted:
  assumes "always_fails srv url"
  shows "\<exists>w' e. url_step rt srv url maxP st = on_error 3 (Some e) (st\<lparr>world := w'\<rparr>)"
proof (cases "url_valid rt url")
  case False
  then have "url_step rt srv url maxP st
      = on_error 3 (Some (TypeError ''Invalid URL'')) (st\<lparr>world := world st\<rparr>)"
    by (simp add: url_step_def)
  then show ?thesis by blast
next
  case True
  define t where "t = the_enat (min (enat 50) (maxP - enat (length (allProducts st))))"
  from assms have "isl (srv (world st @ [UrlPage url (skip st) t]))"
    by (simp add: always_fails_def)
  then obtain e where "srv (world st @ [UrlPage url (skip st) t]) = Inl e"
    by (cases "srv (world st @ [UrlPage url (skip st) t])") auto
  with True show ?thesis
    by (auto simp: url_step_def makeApiRequest_def t_def [symmetric])
qed

lemma exhausted_loop:
  assumes body: "\<And>st. \<exists>w' e. body st = on_error maxR (Some e) (st\<lparr>world := w'\<rparr>)"
  shows "\<exists>thrown st'. pagination_loop body maxP maxR st = Some (thrown, st')
           \<and> allProducts st' = allProducts st"
proof -
  have cont: "allProducts s' = allProducts s \<and> consecutiveErrors s' = Suc (consecutiveErrors s)
                \<and> consecutiveErrors s' < maxR"
    if "body s = Continue s'" for s s'
  proof -
    from body [of s] that obtain w' e where
      "on_error maxR (Some e) (s\<lparr>world := w'\<rparr>) = Continue s'" by auto
    from on_error_Continue [OF this] show ?thesis by simp
  qed
  have "\<exists>res. pagination_loop body maxP maxR st = Some res"
    by (rule pagination_loop_terminates [where r = "measure (\<lambda>s. maxR - consecutiveErrors s)"])
       (auto dest!: cont)
  then obtain thrown st' where run: "pagination_loop body maxP maxR st = Some (thrown, st')"
    by (cases "pagination_loop body maxP maxR st") auto
  have same: "allProducts (state_of (body s)) = allProducts s" for s
    using body [of s] by auto
  have "allProducts (snd (thrown, st')) = allProducts st"
    by (rule pagination_loop_rel
          [where R = "\<lambda>s s'. allProducts s' = allProducts s", OF run])
       (simp_all add: same)
  with run show ?thesis by auto
qed

lemma fetchProductsByCategory_exhausted:
  assumes "always_fails srv category"
  shows "\<exists>w1. fetchProductsByCategory cfg srv category maxP w = Some (Inr [], w1)"
proof -
  obtain counts w0 where c: "getCategoryCounts cfg srv category w = (counts, w0)"
    by (cases "getCategoryCounts cfg srv category w")
  with getCategoryCounts_defined [of cfg srv category w w0] have ne: "counts \<noteq> Inl None" by auto
  obtain thrown st' where run: "paginateCategory cfg srv category maxP w0 = Some (thrown, st')"
      "allProducts st' = []"
    using exhausted_loop [of "category_step cfg srv category maxP" "retryAttempts cfg" maxP "initial_state w0"]
      category_step_exhausted [OF assms]
    by (auto simp: paginateCategory_def initial_state_def)
  from c ne run show ?thesis
    by (auto simp: fetchProductsByCategory_def bind_err_def message_of_thrown_def trim_to_def
             split: sum.splits option.splits)
qed

lemma fetchProductsByUrl_exhausted:
  assumes "always_fails srv url" and "url \<noteq> []"
  shows "\<exists>w1. fetchProductsByUrl rt srv url maxP w = Some (Inr [], w1)"
proof -
  obtain thrown st' where run: "paginateUrl rt srv url maxP w = Some (thrown, st')"
      "allProducts st' = []"
    using exhausted_loop [of "url_step rt srv url maxP" 3 maxP "initial_state w"]
      url_step_exhausted [OF assms(1)]
    by (auto simp: paginateUrl_def initial_state_def)
  with assms(2) show ?thesis
    by (auto simp: fetchProductsByUrl_def trim_to_def split: option.splits)
qed

lemma fetch_input_exhausted:
  assumes "always_fails srv input"
  shows "\<exists>w1. fetch_input rt cfg srv input maxP w = Some (Inr [], w1)"
  using fetchProductsByCategory_exhausted [OF assms] fetchProductsByUrl_exhausted [OF assms]
  by (cases "input = []") (auto simp: fetch_input_def)

text \<open>
  C1. Whenever \<open>scrape\<close> returns records, there are at most \<open>maxProducts\<close> of them, for
  every list of inputs and every \<open>maxProducts\<close> (a count, 0 included, or \<open>Infinity\<close>): each
  collection for one input is bounded by the budget it is given (the loop's result is cut
  by \<open>slice\<close>), which \<open>scrape\<close> sets to what remains of \<open>maxProducts\<close>, and once nothing
  remains no further input is processed and no request is made. With a finite
  \<open>maxProducts\<close> (and a concurrency of at least 1 if details are fetched) \<open>scrape\<close> does
  return.
\<close>

theorem scrape_at_most_maxProducts:
  "(scrape rt cfg srv inputs opts w = Some (Inr records, w') \<longrightarrow>
      enat (length records) \<le> maxProducts opts)
   \<and> (fetchProductsByCategory cfg srv category maxP w = Some (Inr products, w') \<longrightarrow>
        enat (length products) \<le> maxP)
   \<and> (fetchProductsByUrl rt srv url maxP w = Some (Inr products, w') \<longrightarrow>
        enat (length products) \<le> maxP)
   \<and> (maxProducts opts - enat (length collected) \<le> 0 \<longrightarrow>
        scrape_inputs fetch cfg srv opts inputs collected w = Some (Inr collected, w))
   \<and> (maxProducts opts \<noteq> \<infinity> \<and> (fetchDetails opts \<longrightarrow> 0 < parallelRequests cfg) \<longrightarrow>
        (\<exists>result. scrape rt cfg srv inputs opts w = Some result))"
proof -
  have 4: "scrape_inputs fetch cfg srv opts inputs collected w = Some (Inr collected, w)"
    if "maxProducts opts - enat (length collected) \<le> 0"
    using that by (cases inputs) simp_all
  show ?thesis
  proof (intro conjI impI)
    assume "scrape rt cfg srv inputs opts w = Some (Inr records, w')"
    then show "enat (length records) \<le> maxProducts opts" by (rule scrape_bound)
  next
    assume "fetchProductsByCategory cfg srv category maxP w = Some (Inr products, w')"
    then show "enat (length products) \<le> maxP" by (rule fetchProductsByCategory_bound)
  next
    assume "fetchProductsByUrl rt srv url maxP w = Some (Inr products, w')"
    then show "enat (length products) \<le> maxP" by (rule fetchProductsByUrl_bound)
  next
    assume "maxProducts opts - enat (length collected) \<le> 0"
    then show "scrape_inputs fetch cfg srv opts inputs collected w = Some (Inr collected, w)"
      by (rule 4)
  next
    assume "maxProducts opts \<noteq> \<infinity> \<and> (fetchDetails opts \<longrightarrow> 0 < parallelRequests cfg)"
    then show "\<exists>result. scrape rt cfg srv inputs opts w = Some result"
      using scrape_terminates by blast
  qed
qed

theorem scrape_at_most_maxProducts_witness:
  "\<exists>records w'. scrape sample_runtime default_config alternator_down_server
                   [''Alternator'', ''Battery''] sample_options [] = Some (Inr records, w')
                 \<and> enat (length records) \<le> 10"
proof -
  have fin: "maxProducts sample_options \<noteq> \<infinity> \<and>
        (fetchDetails sample_options \<longrightarrow> 0 < parallelRequests default_config)"
    by (simp add: sample_options_def)
  note inst = scrape_at_most_maxProducts
      [where rt = sample_runtime and cfg = default_config and srv = alternator_down_server
         and inputs = "[''Alternator'', ''Battery'']" and opts = sample_options and w = "[]"]
  from inst [THEN conjunct2, THEN conjunct2, THEN conjunct2, THEN conjunct2, THEN mp, OF fin]
  obtain r w' where run: "scrape sample_runtime default_config alternator_down_server
                   [''Alternator'', ''Battery''] sample_options [] = Some (r, w')"
    by auto
  have "usePresetUrls sample_options \<longrightarrow> [] \<notin> set (categoryUrls default_config)"
    by (simp add: sample_options_def)
  from scrape_no_throw [OF this] run obtain records where r: "r = Inr records"
    by (cases r) auto
  from inst [THEN conjunct1, THEN mp, of records w'] run r
  have "enat (length records) \<le> 10" by (simp add: sample_options_def)
  with run r show ?thesis by blast
qed

text \<open>
  C5. If every page request for an input fails, the collection for that input ends at the
  failure ceiling with the empty list, without throwing, and the loop over the inputs goes
  on with the next input, the budget untouched; for the first input of \<open>scrape\<close> this
  means that the run equals the processing of the remaining inputs from the world the
  failed attempts left behind. \<open>scrape\<close> over category and URL inputs throws in no case.
\<close>

theorem exhausted_input_is_skipped:
  "(always_fails srv input \<and> \<not> maxProducts opts - enat (length collected) \<le> 0 \<longrightarrow>
      (\<exists>w1. fetch_input rt cfg srv input (maxProducts opts - enat (length collected)) w
               = Some (Inr [], w1)
           \<and> scrape_inputs (fetch_input rt cfg srv) cfg srv opts (input # inputs) collected w
               = scrape_inputs (fetch_input rt cfg srv) cfg srv opts inputs collected w1))
   \<and> (always_fails srv input \<and> 0 < maxProducts opts
        \<and> \<not> (usePresetUrls opts \<and> categoryUrls cfg \<noteq> []) \<longrightarrow>
      (\<exists>w0 w1. initialize cfg srv w = (Inr (), w0)
           \<and> fetch_input rt cfg srv input (maxProducts opts) w0 = Some (Inr [], w1)
           \<and> scrape rt cfg srv (input # inputs) opts w
               = map_collected rt (scrape_inputs (fetch_input rt cfg srv) cfg srv opts inputs [] w1)))
   \<and> ((usePresetUrls opts \<longrightarrow> [] \<notin> set (categoryUrls cfg)) \<longrightarrow>
        scrape rt cfg srv inputs opts w \<noteq> Some (Inl error, w'))"
proof -
  have 1: "\<exists>w1. fetch_input rt cfg srv input (maxProducts opts - enat (length collected)) w
               = Some (Inr [], w1)
           \<and> scrape_inputs (fetch_input rt cfg srv) cfg srv opts (input # inputs) collected w
               = scrape_inputs (fetch_input rt cfg srv) cfg srv opts inputs collected w1"
    if "always_fails srv input \<and> \<not> maxProducts opts - enat (length collected) \<le> 0"
      for collected w
  proof -
    from that fetch_input_exhausted obtain w1 where
      "fetch_input rt cfg srv input (maxProducts opts - enat (length collected)) w = Some (Inr [], w1)"
      by blast
    with that show ?thesis by (simp add: Let_def)
  qed
  have 2: "\<exists>w0 w1. initialize cfg srv w = (Inr (), w0)
           \<and> fetch_input rt cfg srv input (maxProducts opts) w0 = Some (Inr [], w1)
           \<and> scrape rt cfg srv (input # inputs) opts w
               = map_collected rt (scrape_inputs (fetch_input rt cfg srv) cfg srv opts inputs [] w1)"
    if a: "always_fails srv input \<and> 0 < maxProducts opts
        \<and> \<not> (usePresetUrls opts \<and> categoryUrls cfg \<noteq> [])"
  proof -
    obtain w0 where init: "initialize cfg srv w = (Inr (), w0)"
      using initialize_returns by blast
    from a have "always_fails srv input \<and> \<not> maxProducts opts - enat (length ([]::jsval list)) \<le> 0"
      by (simp add: zero_enat_def [symmetric])
    from 1 [OF this, of w0] obtain w1 where
      "fetch_input rt cfg srv input (maxProducts opts) w0 = Some (Inr [], w1)"
      "scrape_inputs (fetch_input rt cfg srv) cfg srv opts (input # inputs) [] w0
         = scrape_inputs (fetch_input rt cfg srv) cfg srv opts inputs [] w1"
      by (auto simp: zero_enat_def [symmetric])
    with init a show ?thesis by (auto simp: scrape_def)
  qed
  from 1 2 scrape_no_throw show ?thesis by blast
qed

lemma battery_fetch:
  "\<exists>w2. fetch_input sample_runtime default_config alternator_down_server ''Battery'' (enat 10) w1
          = Some (Inr [Obj [(''id'', Num 1)]], w2)"
proof -
  let ?srv = alternator_down_server
  let ?w = "w1 @ [CategoryCounts ''Battery'']"
  let ?st1 = "\<lparr>allProducts = [Obj [(''id'', Num 1)]], skip = 10, hasMore = False,
                 consecutiveErrors = 0, world = ?w @ [SearchResults ''Battery'' 0 10]\<rparr>"
  have bs: "batchSize default_config = 500" and ra: "retryAttempts default_config = 3"
    by (simp_all add: default_config_def)
  have "\<exists>counts. countsOperation ?srv ''Battery'' w1 = (Inr counts, ?w)"
    by (simp add: countsOperation_def makeApiRequest_def alternator_down_server_def
          page_response_def getprop_def bind_err_def)
  then obtain counts where c: "countsOperation ?srv ''Battery'' w1 = (Inr counts, ?w)"
    by blast
  have counts: "getCategoryCounts default_config ?srv ''Battery'' w1 = (Inr counts, ?w)"
    unfolding getCategoryCounts_def
    by (rule retried_first_success [where fn = "countsOperation ?srv ''Battery''", OF c]) simp
  have step: "category_step default_config ?srv ''Battery'' (enat 10) (initial_state ?w)
      = Continue ?st1"
    using category_step_plain
            [of ?srv "initial_state ?w" "''Battery''" 10 "page_response 1" "[Obj [(''id'', Num 1)]]"
                default_config "enat 10"]
    by (simp add: initial_state_def alternator_down_server_def plain_page_def page_response_def bs)
  have "paginateCategory default_config ?srv ''Battery'' (enat 10) ?w
          = pagination_loop (category_step default_config ?srv ''Battery'' (enat 10)) (enat 10)
              (retryAttempts default_config) ?st1"
    unfolding paginateCategory_def
    by (rule loop_Continue [where body = "category_step default_config ?srv ''Battery'' (enat 10)", OF _ step])
       (simp add: loop_condition_def initial_state_def ra zero_enat_def)
  also have "\<dots> = Some (None, ?st1)"
    by (rule loop_exit) (simp add: loop_condition_def)
  finally have run: "paginateCategory default_config ?srv ''Battery'' (enat 10) ?w = Some (None, ?st1)" .
  have "\<not> prefix ''http'' ''Battery''" by simp
  then have "fetch_input sample_runtime default_config ?srv ''Battery'' (enat 10) w1
      = fetchProductsByCategory default_config ?srv ''Battery'' (enat 10) w1"
    by (simp only: fetch_input_def if_False)
  also have "\<dots> = Some (Inr (trim_to (enat 10) [Obj [(''id'', Num 1)]]),
                       ?w @ [SearchResults ''Battery'' 0 10])"
    by (simp add: fetchProductsByCategory_def counts run)
  finally show ?thesis by (simp add: trim_to_def)
qed

theorem exhausted_input_is_skipped_witness:
  "\<exists>w2. scrape_inputs (fetch_input sample_runtime default_config alternator_down_server)
           default_config alternator_down_server sample_options [''Alternator'', ''Battery''] [] []
         = Some (Inr [Obj [(''id'', Num 1)]], w2)"
proof -
  have down: "always_fails alternator_down_server ''Alternator''
              \<and> \<not> maxProducts sample_options - enat (length ([]::jsval list)) \<le> 0"
    by (simp add: always_fails_def alternator_down_server_def sample_options_def
          zero_enat_def [symmetric])
  from exhausted_input_is_skipped
         [where srv = alternator_down_server and input = "''Alternator''" and opts = sample_options
            and collected = "[]" and rt = sample_runtime and cfg = default_config and w = "[]"
            and inputs = "[''Battery'']",
          THEN conjunct1, THEN mp, OF down]
  obtain w1 where skip_first:
    "scrape_inputs (fetch_input sample_runtime default_config alternator_down_server)
       default_config alternator_down_server sample_options [''Alternator'', ''Battery''] [] []
     = scrape_inputs (fetch_input sample_runtime default_config alternator_down_server)
         default_config alternator_down_server sample_options [''Battery''] [] w1"
    by blast
  from battery_fetch [of w1] obtain w2 where
    "fetch_input sample_runtime default_config alternator_down_server ''Battery'' (enat 10) w1
       = Some (Inr [Obj [(''id'', Num 1)]], w2)"
    by blast
  then have "scrape_inputs (fetch_input sample_runtime default_config alternator_down_server)
         default_config alternator_down_server sample_options [''Battery''] [] w1
     = Some (Inr [Obj [(''id'', Num 1)]], w2)"
    by (simp add: sample_options_def Let_def numeral_eq_enat zero_enat_def)
  with skip_first show ?thesis by auto
qed


section \<open>Properties of the log output\<close>

text \<open>
  On an object (no key twice) the sanitizing works entry by entry.
\<close>

lemma set_header_map:
  "distinct (map fst hs) \<Longrightarrow> map_of hs k = Some v \<Longrightarrow>
   set_header hs k v' = map (\<lambda>(k', x). (k', if k' = k then v' else x)) hs"
proof (induction hs)
  case Nil
  then show ?case by simp
next
  case (Cons h hs)
  obtain k0 v0 where h: "h = (k0, v0)" by (cases h)
  show ?case
  proof (cases "k0 = k")
    case True
    with Cons.prems h have "k \<notin> fst ` set hs" by auto
    hence "map (\<lambda>(k', x). (k', if k' = k then v' else x)) hs = hs"
      by (induction hs) auto
    with True h show ?thesis by simp
  next
    case False
    with Cons h show ?thesis by simp
  qed
qed

lemma hide_token_map:
  assumes "distinct (map fst hs)" "k \<in> fst ` set hs"
  shows "hide_token hs k =
         map (\<lambda>(k', x). (k', if k' = k \<and> prefix ''XvPW5hYbpt'' k' then token_hidden x else x)) hs"
proof -
  from assms obtain v where v: "map_of hs k = Some v"
    by (metis domD dom_map_of_conv_image_fst)
  show ?thesis
  proof (cases "prefix ''XvPW5hYbpt'' k")
    case True
    have "map (\<lambda>(k', x). (k', if k' = k then token_hidden v else x)) hs =
          map (\<lambda>(k', x). (k', if k' = k \<and> prefix ''XvPW5hYbpt'' k' then token_hidden x else x)) hs"
    proof (rule map_cong [OF refl])
      fix e assume e: "e \<in> set hs"
      obtain a b where ab: "e = (a, b)" by (cases e)
      from e ab assms(1) have "map_of hs a = Some b" by simp
      with v True ab
      show "(case e of (k', x) \<Rightarrow> (k', if k' = k then token_hidden v else x)) =
            (case e of (k', x) \<Rightarrow> (k', if k' = k \<and> prefix ''XvPW5hYbpt'' k' then token_hidden x else x))"
        by auto
    qed
    with True v set_header_map [OF assms(1) v] show ?thesis
      by (simp add: hide_token_def)
  next
    case False
    hence "map (\<lambda>(k', x). (k', if k' = k \<and> prefix ''XvPW5hYbpt'' k' then token_hidden x else x)) hs = hs"
      by (induction hs) auto
    with False show ?thesis by (simp add: hide_token_def)
  qed
qed

lemma foldl_hide_token:
  "distinct (map fst hs) \<Longrightarrow> distinct ks \<Longrightarrow> set ks \<subseteq> fst ` set hs \<Longrightarrow>
   foldl hide_token hs ks =
   map (\<lambda>(k', x). (k', if k' \<in> set ks \<and> prefix ''XvPW5hYbpt'' k' then token_hidden x else x)) hs"
proof (induction ks arbitrary: hs)
  case Nil
  have "map (\<lambda>(k', x). (k', x)) hs = hs" by (induction hs) auto
  thus ?case by simp
next
  case (Cons k ks)
  let ?hs = "hide_token hs k"
  have step: "?hs = map (\<lambda>(k', x). (k', if k' = k \<and> prefix ''XvPW5hYbpt'' k' then token_hidden x else x)) hs"
    using Cons.prems by (intro hide_token_map) auto
  have keys: "map fst ?hs = map fst hs" unfolding step by (induction hs) auto
  hence set_keys: "fst ` set ?hs = fst ` set hs" by (metis list.set_map)
  have "foldl hide_token ?hs ks =
        map (\<lambda>(k', x). (k', if k' \<in> set ks \<and> prefix ''XvPW5hYbpt'' k' then token_hidden x else x)) ?hs"
    using Cons.prems keys set_keys by (intro Cons.IH) auto
  also have "\<dots> = map (\<lambda>(k', x). (k', if k' \<in> set (k # ks) \<and> prefix ''XvPW5hYbpt'' k' then token_hidden x else x)) hs"
    unfolding step using Cons.prems(2) by (auto simp: comp_def)
  finally show ?case by simp
qed

lemma sanitizedHeaders_map:
  assumes "distinct (map fst headers)"
  shows "sanitizedHeaders headers = map (\<lambda>(k, v). (k, hidden_value k v)) headers"
proof -
  define hidden where "hidden =
    (case map_of headers ''Cookie'' of
       None \<Rightarrow> headers
     | Some v \<Rightarrow> if v \<noteq> [] then set_header headers ''Cookie'' (cookie_hidden v) else headers)"
  have hidden: "hidden = map (\<lambda>(k, v). (k, if k = ''Cookie'' \<and> v \<noteq> [] then cookie_hidden v else v)) headers"
  proof (cases "map_of headers ''Cookie''")
    case None
    hence "''Cookie'' \<notin> fst ` set headers" by (simp add: map_of_eq_None_iff)
    hence "map (\<lambda>(k, v). (k, if k = ''Cookie'' \<and> v \<noteq> [] then cookie_hidden v else v)) headers = headers"
      by (induction headers) auto
    with None show ?thesis by (simp add: hidden_def)
  next
    case (Some c)
    have entry: "b = c" if "(''Cookie'', b) \<in> set headers" for b
      using that assms Some by simp
    show ?thesis
    proof (cases "c = []")
      case True
      have "map (\<lambda>(k, v). (k, if k = ''Cookie'' \<and> v \<noteq> [] then cookie_hidden v else v)) headers =
            map (\<lambda>e. e) headers"
        by (rule map_cong [OF refl]) (use entry True in auto)
      with Some True show ?thesis by (simp add: hidden_def)
    next
      case False
      have "map (\<lambda>(k', x). (k', if k' = ''Cookie'' then cookie_hidden c else x)) headers =
            map (\<lambda>(k, v). (k, if k = ''Cookie'' \<and> v \<noteq> [] then cookie_hidden v else v)) headers"
        by (rule map_cong [OF refl]) (use entry False in auto)
      with Some False set_header_map [OF assms Some, of "cookie_hidden c"] show ?thesis
        by (simp add: hidden_def)
    qed
  qed
  have keys: "map fst hidden = map fst headers" unfolding hidden by (induction headers) auto
  have keyset: "set (map fst hidden) = fst ` set headers" using keys by (metis list.set_map)
  have "sanitizedHeaders headers = foldl hide_token hidden (map fst hidden)"
    by (simp add: sanitizedHeaders_def hidden_def Let_def)
  also have "\<dots> = map (\<lambda>(k', x). (k', if k' \<in> set (map fst hidden) \<and> prefix ''XvPW5hYbpt'' k' then token_hidden x else x)) hidden"
  proof (rule foldl_hide_token)
    show "distinct (map fst hidden)" "distinct (map fst hidden)" using assms keys by simp_all
    show "set (map fst hidden) \<subseteq> fst ` set hidden" by simp
  qed
  also have "\<dots> = map (\<lambda>(k', x). (k', if k' \<in> fst ` set headers \<and> prefix ''XvPW5hYbpt'' k' then token_hidden x else x)) hidden"
    by (simp only: keyset)
  also have "\<dots> = map (\<lambda>(k, v). (k, hidden_value k v)) headers"
    unfolding hidden by (force simp: hidden_value_def comp_def)
  finally show ?thesis .
qed

text \<open>
  C9. A call of \<open>makeApiRequest\<close> that the upstream answers with status 503 and a
  \<open>set-cookie\<close> header: the line with the request headers shows the cookie and the token
  as notes of their lengths, and the \<open>catch\<close> block then logs the response headers as they
  came, the new session cookie in clear.
\<close>

theorem makeApiRequest_logs_response_cookie:
  "makeApiRequest_log sample_runtime sample_headers search_url unavailable =
     (Inl (Error ''Request failed with status code 503''),
      [(LogDebug, ''Using cookies (length: 10)''),
       (LogInfo, ''Making API request to: https://www.lkqonline.com/api/catalog/0/product?catalogId=0&action=GetSearchResults''),
       (LogDebug, ''Request headers: {\"Accept\":\"application/json\",\"Cookie\":\"[COOKIE HIDDEN - LENGTH: 10]\",\"XvPW5hYbpt-a\":\"[TOKEN HIDDEN - LENGTH: 5]\"}''),
       (LogDebug, ''Response headers: {\"content-type\":\"text/plain\",\"set-cookie\":[\"session=n3ws3cr3t; Path=/; HttpOnly\"]}''),
       (LogError, ''Failed URL: https://www.lkqonline.com/api/catalog/0/product?catalogId=0&action=GetSearchResults''),
       (LogError, ''API request failed: Request failed with status code 503 - Status: 503 - Response: Service Unavailable...'')])"
proof -
  have d: "distinct (map fst sample_headers)" by (simp add: sample_headers_def)
  have request: "request_headers_log sample_headers =
      ''Request headers: {\"Accept\":\"application/json\",\"Cookie\":\"[COOKIE HIDDEN - LENGTH: 10]\",\"XvPW5hYbpt-a\":\"[TOKEN HIDDEN - LENGTH: 5]\"}''"
    by (simp add: request_headers_log_def sanitizedHeaders_map [OF d])
       (simp add: sample_headers_def hidden_value_def json_object_def json_quote_def
          cookie_hidden_def token_hidden_def show_nat.simps digit_char_def)
  have cookie: "map_of sample_headers ''Cookie'' = Some ''sid=s3cr3t''"
    by (simp add: sample_headers_def)
  have caught: "catch_log sample_runtime ''Request failed with status code 503''
                  (Some \<lparr>resp_status = 503,
                         resp_headers = [(''content-type'', Single ''text/plain''),
                                         (''set-cookie'', Multiple [''session=n3ws3cr3t; Path=/; HttpOnly''])],
                         resp_data = Str ''Service Unavailable''\<rparr>)
                  (Some search_url) =
      [(LogDebug, ''Response headers: {\"content-type\":\"text/plain\",\"set-cookie\":[\"session=n3ws3cr3t; Path=/; HttpOnly\"]}''),
       (LogError, ''Failed URL: https://www.lkqonline.com/api/catalog/0/product?catalogId=0&action=GetSearchResults''),
       (LogError, ''API request failed: Request failed with status code 503 - Status: 503 - Response: Service Unavailable...'')]"
    by (simp add: catch_log_def json_headers_def json_header_value_def json_quote_def
          search_url_def show_int_def show_nat.simps digit_char_def data_excerpt_def)
  show ?thesis
    by (simp add: makeApiRequest_log_def cookie request unavailable_def caught Let_def
          show_nat.simps digit_char_def)
       (simp add: search_url_def)
qed

end
